theory Spec2Isabelle
  imports Main
begin

section \<open>Python strings and integers\<close>

text \<open>
  A Python \<open>str\<close> is modelled as a \<open>string\<close>, one \<open>char\<close> per code point, which
  covers the code points below 256. \<open>isspace\<close> lists the code points of that range
  that \<open>str.isspace\<close> accepts; \<open>str.strip()\<close> without argument removes them from
  both ends.
\<close>

definition isspace :: "char \<Rightarrow> bool" where
  "isspace c = (c \<in> set [CHR 0x09, CHR 0x0A, CHR 0x0B, CHR 0x0C, CHR 0x0D,
                          CHR 0x1C, CHR 0x1D, CHR 0x1E, CHR 0x1F, CHR 0x20,
                          CHR 0x85, CHR 0xA0])"

definition strip :: "string \<Rightarrow> string" where
  "strip s = rev (dropWhile isspace (rev (dropWhile isspace s)))"

text \<open>\<open>str.lower()\<close> on the same range: the upper-case letters are A-Z and the
  Latin-1 capitals \<open>0xC0\<close>-\<open>0xDE\<close> without the multiplication sign \<open>0xD7\<close>.\<close>

definition upper_chars :: string where
  "upper_chars = ''ABCDEFGHIJKLMNOPQRSTUVWXYZ'' @
     [CHR 0xC0, CHR 0xC1, CHR 0xC2, CHR 0xC3, CHR 0xC4, CHR 0xC5,
      CHR 0xC6, CHR 0xC7, CHR 0xC8, CHR 0xC9, CHR 0xCA, CHR 0xCB,
      CHR 0xCC, CHR 0xCD, CHR 0xCE, CHR 0xCF, CHR 0xD0, CHR 0xD1,
      CHR 0xD2, CHR 0xD3, CHR 0xD4, CHR 0xD5, CHR 0xD6, CHR 0xD8,
      CHR 0xD9, CHR 0xDA, CHR 0xDB, CHR 0xDC, CHR 0xDD, CHR 0xDE]"

definition lower_chars :: string where
  "lower_chars = ''abcdefghijklmnopqrstuvwxyz'' @
     [CHR 0xE0, CHR 0xE1, CHR 0xE2, CHR 0xE3, CHR 0xE4, CHR 0xE5,
      CHR 0xE6, CHR 0xE7, CHR 0xE8, CHR 0xE9, CHR 0xEA, CHR 0xEB,
      CHR 0xEC, CHR 0xED, CHR 0xEE, CHR 0xEF, CHR 0xF0, CHR 0xF1,
      CHR 0xF2, CHR 0xF3, CHR 0xF4, CHR 0xF5, CHR 0xF6, CHR 0xF8,
      CHR 0xF9, CHR 0xFA, CHR 0xFB, CHR 0xFC, CHR 0xFD, CHR 0xFE]"

definition lower_char :: "char \<Rightarrow> char" where
  "lower_char c = (case map_of (zip upper_chars lower_chars) c of None \<Rightarrow> c | Some l \<Rightarrow> l)"

definition lower :: "string \<Rightarrow> string" where
  "lower s = map lower_char s"

text \<open>
  \<open>int(s)\<close> for a string. The whitespace that \<open>int\<close> drops at both ends is not
  that of \<open>str.strip()\<close>: below 127 it is the six characters tab, line feed,
  vertical tab, form feed, carriage return and space, above it the Unicode whitespace,
  so the separators \<open>0x1C\<close>-\<open>0x1F\<close> are not skipped and make the string invalid.
  One sign is allowed, and the rest is a non-empty run of decimal digits in which
  single underscores may stand between two digits; more than 4300 digits, the default
  limit of the interpreter, are refused. Anything else raises \<open>ValueError\<close>, here
  \<open>None\<close>.
\<close>

definition int_space :: "char \<Rightarrow> bool" where
  "int_space c = (c \<in> set [CHR 0x09, CHR 0x0A, CHR 0x0B, CHR 0x0C, CHR 0x0D, CHR 0x20,
                            CHR 0x85, CHR 0xA0])"

definition int_strip :: "string \<Rightarrow> string" where
  "int_strip s = rev (dropWhile int_space (rev (dropWhile int_space s)))"

definition digit_val :: "char \<Rightarrow> nat option" where
  "digit_val c =
     (let n = (of_char c :: nat) in if 48 \<le> n \<and> n \<le> 57 then Some (n - 48) else None)"

fun parse_digits :: "nat \<Rightarrow> bool \<Rightarrow> string \<Rightarrow> nat option" where
  "parse_digits acc prev [] = (if prev then Some acc else None)"
| "parse_digits acc prev (c # cs) =
     (if c = CHR ''_'' then
        (if prev \<and> cs \<noteq> [] then parse_digits acc False cs else None)
      else
        (case digit_val c of
           None \<Rightarrow> None
         | Some d \<Rightarrow> parse_digits (acc * 10 + d) True cs))"

definition int_of_str :: "string \<Rightarrow> int option" where
  "int_of_str s =
     (case int_strip s of
        [] \<Rightarrow> None
      | c # cs \<Rightarrow>
          (let body = (if c = CHR ''-'' \<or> c = CHR ''+'' then cs else c # cs)
           in if length (filter (\<lambda>d. d \<noteq> CHR ''_'') body) > 4300 then None
              else if c = CHR ''-'' then map_option (\<lambda>n. - int n) (parse_digits 0 False body)
              else map_option int (parse_digits 0 False body)))"

text \<open>\<open>str(n)\<close> for a non-negative integer, as an f-string renders it.\<close>

fun str_of_nat :: "nat \<Rightarrow> string" where
  "str_of_nat n =
     (if n < 10 then [''0123456789'' ! n]
      else str_of_nat (n div 10) @ [''0123456789'' ! (n mod 10)])"

declare str_of_nat.simps [simp del]

section \<open>Data model\<close>

text \<open>An entry of \<open>groups.json\<close>.\<close>

record group =
  chat_id :: string
  name :: string
  added_date :: string

text \<open>The dictionary of \<open>config.json\<close>, with the keys \<open>load_config\<close> guarantees.\<close>

record config_data =
  messages :: "string list"
  delays :: "int list"
  min_delay :: int
  max_delay :: int
  daily_limit :: int
  last_sent :: "string \<rightharpoonup> int"

text \<open>
  What the run of the program can be observed to do: \<open>asyncio.sleep\<close> and the
  call of \<open>client.send_message\<close> with its two arguments.
\<close>

datatype event = Sleep int | SendMessage int string

text \<open>
  The \<open>TelethonPublisher\<close> object together with the part of the world it reads and
  writes: \<open>config_file\<close> is the content of \<open>config.json\<close>, \<open>today\<close> is what
  \<open>datetime.now().strftime('%Y-%m-%d')\<close> returns, \<open>calls\<close> counts the calls of
  \<open>client.send_message\<close> made so far, and \<open>log\<close> is the history of events.
  The date is a field of the state: no operation below changes it, so one call sees
  one date.
\<close>

record publisher =
  force_mode :: bool
  groups :: "group list"
  config :: config_data
  config_file :: config_data
  today :: string
  calls :: nat
  log :: "event list"

section \<open>Persistence and the rate check\<close>

text \<open>
  \<open>save_config\<close> overwrites \<open>config.json\<close> with the dictionary in memory. The write
  is taken to succeed; the handler of \<open>save_config\<close>, which prints the error of a failed
  write and goes on, is not modelled.
\<close>

definition save_config :: "publisher \<Rightarrow> publisher" where
  "save_config s = s\<lparr>config_file := config s\<rparr>"

text \<open>
  The key \<open>f"{chat_id}_{today}"\<close>. In both functions below the key is inserted with
  count 0 when it is missing, so the lookup that follows finds it.
\<close>

definition key_of :: "string \<Rightarrow> string \<Rightarrow> string" where
  "key_of cid day = cid @ ''_'' @ day"

definition can_send_to_group :: "string \<Rightarrow> publisher \<Rightarrow> bool \<times> publisher" where
  "can_send_to_group cid s =
     (let effective_limit =
            (if force_mode s then daily_limit (config s) * 3 else daily_limit (config s));
          key = key_of cid (today s);
          c = config s;
          c1 = (if key \<notin> dom (last_sent c)
                then c\<lparr>last_sent := (last_sent c)(key \<mapsto> 0)\<rparr> else c)
      in (the (last_sent c1 key) < effective_limit, s\<lparr>config := c1\<rparr>))"

definition mark_sent_to_group :: "string \<Rightarrow> publisher \<Rightarrow> publisher" where
  "mark_sent_to_group cid s =
     (let key = key_of cid (today s);
          c = config s;
          c1 = (if key \<notin> dom (last_sent c)
                then c\<lparr>last_sent := (last_sent c)(key \<mapsto> 0)\<rparr> else c);
          c2 = c1\<lparr>last_sent := (last_sent c1)(key \<mapsto> the (last_sent c1 key) + 1)\<rparr>
      in save_config (s\<lparr>config := c2\<rparr>))"

text \<open>The count stored for a key, a missing key counting as 0.\<close>

definition stored_count :: "publisher \<Rightarrow> string \<Rightarrow> int" where
  "stored_count s key = (case last_sent (config s) key of None \<Rightarrow> 0 | Some n \<Rightarrow> n)"

section \<open>Sending one message\<close>

text \<open>
  The exceptions of the send path: the five Telethon errors that
  \<open>send_message_safely\<close> names, the \<open>ValueError\<close> of \<open>int\<close>, and
  \<open>OtherException\<close> for every other subclass of \<open>Exception\<close> (a connection error,
  another RPC error). The interrupt of the operator is not an error of the send path
  and is not modelled: every run below goes on undisturbed.
\<close>

datatype exn =
    FloodWaitError int
  | SlowModeWaitError int
  | ChatWriteForbiddenError
  | ChatAdminRequiredError
  | UserBannedInChannelError
  | ValueError
  | OtherException

text \<open>
  The network: \<open>net k\<close> is what the call number \<open>k\<close> of \<open>client.send_message\<close> does,
  \<open>None\<close> when the message is delivered and \<open>Some e\<close> when the call raises \<open>e\<close>.
\<close>

type_synonym network = "nat \<Rightarrow> exn option"

definition sleep :: "int \<Rightarrow> publisher \<Rightarrow> publisher" where
  "sleep seconds s = s\<lparr>log := log s @ [Sleep seconds]\<rparr>"

definition client_send_message ::
  "network \<Rightarrow> int \<Rightarrow> string \<Rightarrow> publisher \<Rightarrow> (exn + unit) \<times> publisher" where
  "client_send_message net target message s =
     (let s1 = s\<lparr>calls := Suc (calls s), log := log s @ [SendMessage target message]\<rparr>
      in case net (calls s) of None \<Rightarrow> (Inr (), s1) | Some e \<Rightarrow> (Inl e, s1))"

text \<open>The \<open>try\<close> block of \<open>send_message_safely\<close>: \<open>Inl e\<close> when it raises \<open>e\<close>.\<close>

definition send_message_safely_try ::
  "network \<Rightarrow> string \<Rightarrow> string \<Rightarrow> publisher \<Rightarrow> (exn + bool) \<times> publisher" where
  "send_message_safely_try net cid message s =
     (case int_of_str cid of
        None \<Rightarrow> (Inl ValueError, s)
      | Some chat_id_int \<Rightarrow>
          (case can_send_to_group cid s of
             (ok, s1) \<Rightarrow>
               if \<not> ok then (Inr False, s1)
               else
                 (case client_send_message net chat_id_int message s1 of
                    (Inl e, s2) \<Rightarrow> (Inl e, s2)
                  | (Inr _, s2) \<Rightarrow> (Inr True, mark_sent_to_group cid s2))))"

text \<open>The \<open>except\<close> clauses, in the order of the source; the last one takes the rest.\<close>

fun send_message_safely_except :: "exn \<Rightarrow> publisher \<Rightarrow> (exn + bool) \<times> publisher" where
  "send_message_safely_except (FloodWaitError seconds) s = (Inr False, sleep seconds s)"
| "send_message_safely_except (SlowModeWaitError seconds) s = (Inr False, sleep seconds s)"
| "send_message_safely_except ChatWriteForbiddenError s = (Inr False, s)"
| "send_message_safely_except ChatAdminRequiredError s = (Inr False, s)"
| "send_message_safely_except UserBannedInChannelError s = (Inr False, s)"
| "send_message_safely_except e s = (Inr False, s)"

definition send_message_safely ::
  "network \<Rightarrow> string \<Rightarrow> string \<Rightarrow> publisher \<Rightarrow> (exn + bool) \<times> publisher" where
  "send_message_safely net cid message s =
     (case send_message_safely_try net cid message s of
        (Inr b, s1) \<Rightarrow> (Inr b, s1)
      | (Inl e, s1) \<Rightarrow> send_message_safely_except e s1)"

definition send_to_group_with_delay ::
  "network \<Rightarrow> string \<Rightarrow> string \<Rightarrow> string \<Rightarrow> int \<Rightarrow> publisher \<Rightarrow> (exn + bool) \<times> publisher" where
  "send_to_group_with_delay net cid group_name message delay s =
     (let s1 = (if delay > 0 then sleep delay s else s)
      in case send_message_safely net cid message s1 of
           (Inr success, s2) \<Rightarrow> (Inr success, s2)
         | (Inl e, s2) \<Rightarrow> (Inr False, s2))"

section \<open>The publishing loop\<close>

text \<open>A coroutine of \<open>send_to_group_with_delay\<close> not yet started: its four arguments.\<close>

type_synonym task = "string \<times> string \<times> string \<times> int"

text \<open>The inner \<open>for group in self.groups\<close> loop, which builds the list \<open>tasks\<close>.\<close>

fun make_tasks :: "group list \<Rightarrow> string \<Rightarrow> task list \<Rightarrow> publisher \<Rightarrow> task list \<times> publisher" where
  "make_tasks [] message tasks s = (tasks, s)"
| "make_tasks (g # gs) message tasks s =
     (case can_send_to_group (chat_id g) s of
        (ok, s1) \<Rightarrow>
          if \<not> ok then make_tasks gs message tasks s1
          else make_tasks gs message
                 (tasks @ [(chat_id g, name g, message, int (length tasks) * 2)]) s1)"

text \<open>
  \<open>asyncio.gather(*tasks, return_exceptions=True)\<close>: one result per task, the
  exception itself where a task raised. The event loop runs the coroutines interleaved
  on one thread; the model runs them to completion one after the other, in the order
  of the list (which is the order of their start offsets).
\<close>

fun gather :: "network \<Rightarrow> task list \<Rightarrow> publisher \<Rightarrow> (exn + bool) list \<times> publisher" where
  "gather net [] s = ([], s)"
| "gather net ((cid, group_name, message, delay) # ts) s =
     (case send_to_group_with_delay net cid group_name message delay s of
        (r, s1) \<Rightarrow> (case gather net ts s1 of (rs, s2) \<Rightarrow> (r # rs, s2)))"

text \<open>\<open>sum(1 for result in results if result is True)\<close>\<close>

definition successful_sends :: "(exn + bool) list \<Rightarrow> nat" where
  "successful_sends results = length (filter (\<lambda>result. result = Inr True) results)"

text \<open>
  The loop over \<open>enumerate(self.config['messages'])\<close>: the index, the messages still
  to come, and \<open>total_sent\<close>.
\<close>

fun publish_loop ::
  "network \<Rightarrow> nat \<Rightarrow> string list \<Rightarrow> nat \<Rightarrow> publisher \<Rightarrow> nat \<times> publisher" where
  "publish_loop net message_index [] total_sent s = (total_sent, s)"
| "publish_loop net message_index (message # rest) total_sent s =
     (let delay = (if message_index < length (delays (config s))
                   then delays (config s) ! message_index else 300);
          s1 = sleep delay s
      in case make_tasks (groups s1) message [] s1 of
           (tasks, s2) \<Rightarrow>
             if tasks \<noteq> [] then
               (case gather net tasks s2 of
                  (results, s3) \<Rightarrow>
                    publish_loop net (Suc message_index) rest
                      (total_sent + successful_sends results) s3)
             else publish_loop net (Suc message_index) rest total_sent s2)"

text \<open>\<open>not self.config['messages'] or not self.config['messages'][0].strip()\<close>\<close>

definition no_messages :: "config_data \<Rightarrow> bool" where
  "no_messages c = (case messages c of [] \<Rightarrow> True | m # _ \<Rightarrow> strip m = [])"

text \<open>
  How \<open>start_publishing\<close> ends: one of its three early returns, or the final report
  with \<open>total_sent\<close>.
\<close>

datatype publish_result = NoGroups | NoMessages | NotConfirmed | Completed nat

text \<open>\<open>answer\<close> is what the operator types at the prompt \<open>Proceed? (y/N)\<close>, which is
  only shown outside force mode.\<close>

definition start_publishing ::
  "network \<Rightarrow> string \<Rightarrow> publisher \<Rightarrow> publish_result \<times> publisher" where
  "start_publishing net answer s =
     (if groups s = [] then (NoGroups, s)
      else if no_messages (config s) then (NoMessages, s)
      else if \<not> force_mode s \<and> lower (strip answer) \<noteq> ''y'' then (NotConfirmed, s)
      else (case publish_loop net 0 (messages (config s)) 0 s of
              (total_sent, s1) \<Rightarrow> (Completed total_sent, s1)))"

section \<open>Continuous mode\<close>

text \<open>
  While the program runs, somebody else may rewrite \<open>config.json\<close>: \<open>Some c\<close> puts
  the content \<open>c\<close> there, \<open>None\<close> leaves the file alone.
\<close>

definition outside_edit :: "config_data option \<Rightarrow> publisher \<Rightarrow> publisher" where
  "outside_edit e s = (case e of None \<Rightarrow> s | Some c \<Rightarrow> s\<lparr>config_file := c\<rparr>)"

text \<open>
  The first \<open>n\<close> rounds of the \<open>while True\<close> loop of \<open>run\<close> in force mode; \<open>edits k\<close>
  is what happens to \<open>config.json\<close> from outside before round \<open>k\<close> starts. The loop has
  no exit of its own, so there is such a state for every \<open>n\<close>.
\<close>

fun run_cycles :: "network \<Rightarrow> (nat \<Rightarrow> config_data option) \<Rightarrow> nat \<Rightarrow> publisher \<Rightarrow> publisher" where
  "run_cycles net edits 0 s = s"
| "run_cycles net edits (Suc n) s =
     (let s1 = outside_edit (edits n) (run_cycles net edits n s)
      in case start_publishing net [] s1 of (r, s2) \<Rightarrow> sleep 30 s2)"

text \<open>The force-mode branch of \<open>run\<close>, after the client has connected.\<close>

definition run_force_mode ::
  "network \<Rightarrow> (nat \<Rightarrow> config_data option) \<Rightarrow> nat \<Rightarrow> publisher \<Rightarrow> publisher" where
  "run_force_mode net edits n s =
     (if groups s = [] then s
      else if no_messages (config s) then s
      else run_cycles net edits n s)"

section \<open>Editing the number of messages\<close>

text \<open>\<open>inp\<close> is the line the operator types at the prompt.\<close>

definition placeholder :: "nat \<Rightarrow> string" where
  "placeholder i = ''Message '' @ str_of_nat (i + 1) @ '' - please edit this''"

definition set_message_count :: "string \<Rightarrow> publisher \<Rightarrow> publisher" where
  "set_message_count inp s =
     (case int_of_str inp of
        None \<Rightarrow> s
      | Some count \<Rightarrow>
          if count \<le> 0 then s
          else
            (let c = config s;
                 current_count = length (messages c);
                 c1 = (if nat count > current_count
                       then c\<lparr>messages := messages c @ map placeholder [current_count..<nat count]\<rparr>
                       else if nat count < current_count
                       then c\<lparr>messages := take (nat count) (messages c)\<rparr>
                       else c);
                 current_delays = length (delays c1);
                 c2 = (if nat count > current_delays
                       then c1\<lparr>delays := delays c1 @ replicate (nat count - current_delays) 300\<rparr>
                       else if nat count < current_delays
                       then c1\<lparr>delays := take (nat count) (delays c1)\<rparr>
                       else c1)
             in save_config (s\<lparr>config := c2\<rparr>)))"

section \<open>Vocabulary of the properties\<close>

text \<open>
  What a run never changes: the mode, the groups, the date, and in the dictionary
  everything but the counters.
\<close>

definition same_setup :: "publisher \<Rightarrow> publisher \<Rightarrow> bool" where
  "same_setup s s' =
     (force_mode s' = force_mode s \<and> groups s' = groups s \<and> today s' = today s \<and>
      messages (config s') = messages (config s) \<and>
      delays (config s') = delays (config s) \<and>
      min_delay (config s') = min_delay (config s) \<and>
      max_delay (config s') = max_delay (config s) \<and>
      daily_limit (config s') = daily_limit (config s))"

text \<open>Every message sent in a list of events is the text \<open>m\<close>.\<close>

definition sends_only :: "string \<Rightarrow> event list \<Rightarrow> bool" where
  "sends_only m evs = list_all (\<lambda>e. case e of SendMessage c t \<Rightarrow> t = m | Sleep d \<Rightarrow> True) evs"

text \<open>How many of the calls number \<open>a\<close> to \<open>b - 1\<close> of \<open>client.send_message\<close> the
  network delivers.\<close>

definition delivered :: "network \<Rightarrow> nat \<Rightarrow> nat \<Rightarrow> nat" where
  "delivered net a b = length (filter (\<lambda>k. net k = None) [a..<b])"

text \<open>The wait before the message of index \<open>i\<close>, as the loop picks it.\<close>

definition delay_before :: "publisher \<Rightarrow> nat \<Rightarrow> int" where
  "delay_before s i = (if i < length (delays (config s)) then delays (config s) ! i else 300)"

text \<open>What one call of \<open>send_message_safely\<close> does to the state, in one statement.\<close>

definition step_ok :: "network \<Rightarrow> string \<Rightarrow> publisher \<Rightarrow> (exn + bool) \<Rightarrow> publisher \<Rightarrow> bool" where
  "step_ok net m s r s' =
     (same_setup s s' \<and> (\<exists>evs. log s' = log s @ evs \<and> sends_only m evs) \<and>
      calls s \<le> calls s' \<and> (r = Inr True \<or> r = Inr False) \<and>
      (if r = Inr True then 1 else 0) = delivered net (calls s) (calls s'))"

text \<open>The events that \<open>s'\<close> has seen after \<open>s\<close>, and the sends among a list of events:
  target and text, in their order.\<close>

definition new_events :: "publisher \<Rightarrow> publisher \<Rightarrow> event list" where
  "new_events s s' = drop (length (log s)) (log s')"

fun sent_of :: "event list \<Rightarrow> (int \<times> string) list" where
  "sent_of [] = []"
| "sent_of (Sleep d # evs) = sent_of evs"
| "sent_of (SendMessage c t # evs) = (c, t) # sent_of evs"

text \<open>
  From the state \<open>s\<close> a send to the chat id is attempted: the id is a number and the
  rate check admits it.
\<close>

definition attempted :: "string \<Rightarrow> publisher \<Rightarrow> bool" where
  "attempted cid s = (int_of_str cid \<noteq> None \<and> fst (can_send_to_group cid s))"

text \<open>What an attempted send to a chat id puts on the wire: nothing when the id is
  not a number.\<close>

definition wire :: "string \<Rightarrow> string \<Rightarrow> (int \<times> string) list" where
  "wire cid message = (case int_of_str cid of None \<Rightarrow> [] | Some n \<Rightarrow> [(n, message)])"

text \<open>One call of \<open>send_message_safely\<close> or of \<open>send_to_group_with_delay\<close>, exactly:
  the result is True when the send is attempted and delivered and False otherwise, one
  call of \<open>client.send_message\<close> is made when the send is attempted and none otherwise,
  and the one count that goes up, by one, is that of the key after a delivery.\<close>

definition exact_step ::
  "network \<Rightarrow> string \<Rightarrow> string \<Rightarrow> publisher \<Rightarrow> (exn + bool) \<Rightarrow> publisher \<Rightarrow> bool" where
  "exact_step net cid m s r s' =
     (r = Inr (attempted cid s \<and> net (calls s) = None) \<and>
      calls s' = calls s + (if attempted cid s then 1 else 0) \<and>
      sent_of (new_events s s') = (if attempted cid s then wire cid m else []) \<and>
      (\<forall>k. stored_count s' k =
             stored_count s k +
               (if attempted cid s \<and> net (calls s) = None \<and> k = key_of cid (today s)
                then 1 else 0)))"

text \<open>One task of a batch, awaited: the call of the coroutine with its arguments.\<close>

definition run_task :: "network \<Rightarrow> task \<Rightarrow> publisher \<Rightarrow> (exn + bool) \<times> publisher" where
  "run_task net t s = (case t of (cid, group_name, message, delay) \<Rightarrow>
                         send_to_group_with_delay net cid group_name message delay s)"

section \<open>Example states\<close>

text \<open>
  Three registered groups, two messages with the delays 10 and 20, a daily limit of 2
  and no counter yet, in normal mode.
\<close>

definition demo_groups :: "group list" where
  "demo_groups =
     [\<lparr>chat_id = ''-1001'', name = ''one'', added_date = ''2024-05-01T08:00:00''\<rparr>,
      \<lparr>chat_id = ''-1002'', name = ''two'', added_date = ''2024-05-01T08:01:00''\<rparr>,
      \<lparr>chat_id = ''-1003'', name = ''three'', added_date = ''2024-05-01T08:02:00''\<rparr>]"

definition demo_config :: config_data where
  "demo_config =
     \<lparr>messages = [''A'', ''B''], delays = [10, 20], min_delay = 10, max_delay = 60,
      daily_limit = 2, last_sent = Map.empty\<rparr>"

definition demo :: publisher where
  "demo =
     \<lparr>force_mode = False, groups = demo_groups, config = demo_config,
      config_file = demo_config, today = ''2024-05-02'', calls = 0, log = []\<rparr>"

text \<open>A network on which every call succeeds, and one whose first call is throttled.\<close>

definition net_ok :: network where
  "net_ok k = None"

definition net_flood :: network where
  "net_flood k = (if k = 0 then Some (FloodWaitError 5) else None)"

text \<open>The first group has used up its two sends of the day.\<close>

definition demo_full :: publisher where
  "demo_full = demo\<lparr>config := demo_config\<lparr>last_sent := [''-1001_2024-05-02'' \<mapsto> 2]\<rparr>\<rparr>"

text \<open>The first message is empty, the second is not.\<close>

definition demo_blank_first :: publisher where
  "demo_blank_first = demo\<lparr>config := demo_config\<lparr>messages := ['''', ''B'']\<rparr>\<rparr>"

text \<open>A network whose second call fails with an error nobody expects.\<close>

definition net_broken :: network where
  "net_broken k = (if k = 1 then Some OtherException else None)"

text \<open>
  Force mode with one group and one message; before the second round somebody
  puts another message and another delay into \<open>config.json\<close>.
\<close>

definition demo_force :: publisher where
  "demo_force =
     \<lparr>force_mode = True,
      groups = [\<lparr>chat_id = ''-1001'', name = ''one'', added_date = ''2024-05-01T08:00:00''\<rparr>],
      config = demo_config\<lparr>messages := [''A''], delays := [10]\<rparr>,
      config_file = demo_config\<lparr>messages := [''A''], delays := [10]\<rparr>,
      today = ''2024-05-02'', calls = 0, log = []\<rparr>"

definition edit_new :: "nat \<Rightarrow> config_data option" where
  "edit_new k =
     (if k = 1 then Some (demo_config\<lparr>messages := [''NEW''], delays := [1]\<rparr>) else None)"

text \<open>The batch of the first message for the three groups.\<close>

definition demo_batch :: "task list" where
  "demo_batch =
     [(''-1001'', ''one'', ''A'', 0), (''-1002'', ''two'', ''A'', 2),
      (''-1003'', ''three'', ''A'', 4)]"

section \<open>Properties of the rate check\<close>

lemma can_send_fst:
  "fst (can_send_to_group cid s) \<longleftrightarrow>
     stored_count s (key_of cid (today s)) <
       (if force_mode s then daily_limit (config s) * 3 else daily_limit (config s))"
  by (auto simp: can_send_to_group_def stored_count_def Let_def split: option.splits)

lemma stored_count_mark:
  "stored_count (mark_sent_to_group cid s) k =
     (if k = key_of cid (today s) then stored_count s k + 1 else stored_count s k)"
  by (auto simp: mark_sent_to_group_def save_config_def stored_count_def Let_def
           split: option.splits)

lemma mark_frame:
  "force_mode (mark_sent_to_group cid s) = force_mode s"
  "today (mark_sent_to_group cid s) = today s"
  "groups (mark_sent_to_group cid s) = groups s"
  "calls (mark_sent_to_group cid s) = calls s"
  "log (mark_sent_to_group cid s) = log s"
  "daily_limit (config (mark_sent_to_group cid s)) = daily_limit (config s)"
  "messages (config (mark_sent_to_group cid s)) = messages (config s)"
  "delays (config (mark_sent_to_group cid s)) = delays (config s)"
  "min_delay (config (mark_sent_to_group cid s)) = min_delay (config s)"
  "max_delay (config (mark_sent_to_group cid s)) = max_delay (config s)"
  "config_file (mark_sent_to_group cid s) = config (mark_sent_to_group cid s)"
  by (auto simp: mark_sent_to_group_def save_config_def Let_def)

lemma mark_pow_frame:
  "force_mode ((mark_sent_to_group cid ^^ n) s) = force_mode s \<and>
   today ((mark_sent_to_group cid ^^ n) s) = today s \<and>
   daily_limit (config ((mark_sent_to_group cid ^^ n) s)) = daily_limit (config s) \<and>
   stored_count ((mark_sent_to_group cid ^^ n) s) (key_of cid (today s)) =
     stored_count s (key_of cid (today s)) + int n"
  by (induction n) (simp_all add: mark_frame stored_count_mark)

text \<open>
  Claim C1. \<open>can_send_to_group\<close> answers True exactly when the count stored for the
  key of the group and today's date, 0 when there is none, is below the effective
  limit: three times \<open>daily_limit\<close> in force mode, \<open>daily_limit\<close> otherwise. Once the
  count has reached that limit the answer is False, and it is still False after any
  number \<open>n\<close> of further increments of the key by \<open>mark_sent_to_group\<close>.
\<close>

theorem can_send_to_group_limit:
  "(fst (can_send_to_group cid s) \<longleftrightarrow>
      stored_count s (key_of cid (today s)) <
        (if force_mode s then daily_limit (config s) * 3 else daily_limit (config s))) \<and>
   ((if force_mode s then daily_limit (config s) * 3 else daily_limit (config s))
        \<le> stored_count s (key_of cid (today s)) \<longrightarrow>
      \<not> fst (can_send_to_group cid ((mark_sent_to_group cid ^^ n) s)))"
proof -
  let ?limit = "if force_mode s then daily_limit (config s) * 3 else daily_limit (config s)"
  let ?s' = "(mark_sent_to_group cid ^^ n) s"
  have "fst (can_send_to_group cid ?s') \<longleftrightarrow>
          stored_count s (key_of cid (today s)) + int n < ?limit"
    using mark_pow_frame [where cid = cid and n = n and s = s] by (simp add: can_send_fst)
  then show ?thesis
    by (auto simp: can_send_fst)
qed

text \<open>
  With a limit of 2 and a count of 2 the group is refused, also after three more
  increments; in force mode the limit is 6 and the same count is admitted.
\<close>

theorem can_send_to_group_limit_witness:
  "(if force_mode demo_full then daily_limit (config demo_full) * 3
    else daily_limit (config demo_full))
      \<le> stored_count demo_full (key_of ''-1001'' (today demo_full)) \<and>
   \<not> fst (can_send_to_group ''-1001'' demo_full) \<and>
   \<not> fst (can_send_to_group ''-1001'' ((mark_sent_to_group ''-1001'' ^^ 3) demo_full)) \<and>
   fst (can_send_to_group ''-1001'' (demo_full\<lparr>force_mode := True\<rparr>))"
  using can_send_to_group_limit [where cid = "''-1001''" and s = demo_full and n = 3]
        can_send_to_group_limit
          [where cid = "''-1001''" and s = "demo_full\<lparr>force_mode := True\<rparr>" and n = 0]
  by (simp add: demo_full_def demo_def demo_config_def stored_count_def key_of_def)

lemma can_send_snd:
  "snd (can_send_to_group cid s) =
     s\<lparr>config := (config s)\<lparr>last_sent :=
          (last_sent (config s))(key_of cid (today s) \<mapsto> stored_count s (key_of cid (today s)))\<rparr>\<rparr>"
  by (auto simp: can_send_to_group_def stored_count_def Let_def map_upd_triv
           split: option.splits)

lemma can_send_frame:
  "force_mode (snd (can_send_to_group cid s)) = force_mode s"
  "today (snd (can_send_to_group cid s)) = today s"
  "groups (snd (can_send_to_group cid s)) = groups s"
  "calls (snd (can_send_to_group cid s)) = calls s"
  "log (snd (can_send_to_group cid s)) = log s"
  "config_file (snd (can_send_to_group cid s)) = config_file s"
  "daily_limit (config (snd (can_send_to_group cid s))) = daily_limit (config s)"
  "messages (config (snd (can_send_to_group cid s))) = messages (config s)"
  "delays (config (snd (can_send_to_group cid s))) = delays (config s)"
  "min_delay (config (snd (can_send_to_group cid s))) = min_delay (config s)"
  "max_delay (config (snd (can_send_to_group cid s))) = max_delay (config s)"
  by (simp_all add: can_send_snd)

lemma stored_count_can_send:
  "stored_count (snd (can_send_to_group cid s)) k = stored_count s k"
  by (simp add: can_send_snd) (simp add: stored_count_def split: option.splits)

lemma can_send_twice:
  "can_send_to_group cid (snd (can_send_to_group cid s)) = can_send_to_group cid s"
proof (rule prod_eqI)
  show "fst (can_send_to_group cid (snd (can_send_to_group cid s))) =
        fst (can_send_to_group cid s)"
    by (simp add: can_send_fst stored_count_can_send can_send_frame)
  show "snd (can_send_to_group cid (snd (can_send_to_group cid s))) =
        snd (can_send_to_group cid s)"
    by (simp add: can_send_snd [of cid "snd (can_send_to_group cid s)"]
                  stored_count_can_send can_send_frame)
       (simp add: can_send_snd stored_count_def)
qed

text \<open>
  Claim C4, as the code has it. \<open>can_send_to_group\<close> writes one thing: the entry of
  the key in \<open>last_sent\<close>, which it sets to the count it reads, so a missing key is
  inserted with 0 and nothing else in the object changes. The count read for any key
  is the same afterwards, \<open>config.json\<close> is not touched, and a second check gives the
  same answer and changes nothing more. \<open>mark_sent_to_group\<close> raises the count
  of the key by one and saves the dictionary.
\<close>

theorem can_send_to_group_effect:
  "snd (can_send_to_group cid s) =
     s\<lparr>config := (config s)\<lparr>last_sent :=
          (last_sent (config s))(key_of cid (today s) \<mapsto> stored_count s (key_of cid (today s)))\<rparr>\<rparr> \<and>
   (\<forall>k. stored_count (snd (can_send_to_group cid s)) k = stored_count s k) \<and>
   config_file (snd (can_send_to_group cid s)) = config_file s \<and>
   can_send_to_group cid (snd (can_send_to_group cid s)) = can_send_to_group cid s \<and>
   stored_count (mark_sent_to_group cid s) (key_of cid (today s)) =
     stored_count s (key_of cid (today s)) + 1 \<and>
   config_file (mark_sent_to_group cid s) = config (mark_sent_to_group cid s)"
  by (intro conjI allI can_send_snd can_send_twice stored_count_can_send can_send_frame)
     (simp_all add: stored_count_mark mark_frame)

text \<open>
  Claim C4 as stated fails: with no counter stored, the check of the first example
  group leaves a \<open>last_sent\<close> that has the key, so the dictionary is not the one
  before.
\<close>

theorem can_send_to_group_mutates:
  "last_sent (config demo) ''-1001_2024-05-02'' = None \<and>
   last_sent (config (snd (can_send_to_group ''-1001'' demo))) ''-1001_2024-05-02'' = Some 0 \<and>
   config (snd (can_send_to_group ''-1001'' demo)) \<noteq> config demo"
proof -
  have a: "last_sent (config demo) ''-1001_2024-05-02'' = None"
    by (simp add: demo_def demo_config_def)
  have b: "last_sent (config (snd (can_send_to_group ''-1001'' demo))) ''-1001_2024-05-02'' = Some 0"
    by (simp add: can_send_to_group_def Let_def key_of_def demo_def demo_config_def)
  from a b have "config (snd (can_send_to_group ''-1001'' demo)) \<noteq> config demo"
    by auto
  with a b show ?thesis by simp
qed

theorem can_send_to_group_effect_witness:
  "fst (can_send_to_group ''-1001'' demo) \<and>
   stored_count (snd (can_send_to_group ''-1001'' demo)) ''-1001_2024-05-02'' = 0 \<and>
   config_file (snd (can_send_to_group ''-1001'' demo)) = demo_config \<and>
   can_send_to_group ''-1001'' (snd (can_send_to_group ''-1001'' demo)) =
     can_send_to_group ''-1001'' demo \<and>
   stored_count (mark_sent_to_group ''-1001'' demo) ''-1001_2024-05-02'' = 1"
  using can_send_to_group_effect [of "''-1001''" demo]
  by (simp add: can_send_to_group_def Let_def key_of_def stored_count_def demo_def
                demo_config_def)

section \<open>Properties of the send executor\<close>

lemma except_returns:
  "\<exists>s'. send_message_safely_except e s = (Inr False, s')"
  by (cases e) simp_all

lemma send_message_safely_returns:
  "\<exists>b s'. send_message_safely net cid message s = (Inr b, s')"
proof (cases "send_message_safely_try net cid message s")
  case (Pair r s1)
  show ?thesis
  proof (cases r)
    case (Inl e)
    with Pair except_returns [of e s1] show ?thesis
      by (auto simp: send_message_safely_def)
  next
    case (Inr b)
    with Pair show ?thesis by (simp add: send_message_safely_def)
  qed
qed

lemma send_denied:
  assumes "\<not> fst (can_send_to_group cid s)"
  shows "fst (send_message_safely net cid message s) = Inr False"
    and "log (snd (send_message_safely net cid message s)) = log s"
    and "calls (snd (send_message_safely net cid message s)) = calls s"
  using assms can_send_frame [of cid s]
  by (auto simp: send_message_safely_def send_message_safely_try_def
           split: option.splits prod.splits)

lemma send_delivered:
  assumes "int_of_str cid = Some n" and "fst (can_send_to_group cid s)"
    and "net (calls s) = None"
  shows "send_message_safely net cid message s =
           (Inr True,
            mark_sent_to_group cid
              ((snd (can_send_to_group cid s))
                 \<lparr>calls := Suc (calls s), log := log s @ [SendMessage n message]\<rparr>))"
  using assms can_send_frame [of cid s]
  by (auto simp: send_message_safely_def send_message_safely_try_def client_send_message_def
                 Let_def split: option.splits prod.splits)

lemma send_raises:
  assumes "int_of_str cid = Some n" and "fst (can_send_to_group cid s)"
    and "net (calls s) = Some e"
  shows "send_message_safely net cid message s =
           send_message_safely_except e
              ((snd (can_send_to_group cid s))
                 \<lparr>calls := Suc (calls s), log := log s @ [SendMessage n message]\<rparr>)"
  using assms can_send_frame [of cid s]
  by (auto simp: send_message_safely_def send_message_safely_try_def client_send_message_def
                 Let_def split: option.splits prod.splits)

lemma send_bad_id:
  assumes "int_of_str cid = None"
  shows "send_message_safely net cid message s = (Inr False, s)"
  using assms by (simp add: send_message_safely_def send_message_safely_try_def)

lemma stored_count_upd [simp]:
  "stored_count (s\<lparr>calls := c, log := l\<rparr>) k = stored_count s k"
  "stored_count (s\<lparr>log := l\<rparr>) k = stored_count s k"
  "stored_count (s\<lparr>calls := c\<rparr>) k = stored_count s k"
  by (simp_all add: stored_count_def)

lemma mark_upd:
  "mark_sent_to_group cid (s\<lparr>calls := c, log := l\<rparr>) =
     (mark_sent_to_group cid s)\<lparr>calls := c, log := l\<rparr>"
  by (simp add: mark_sent_to_group_def save_config_def Let_def)

text \<open>
  Claim C2. Whatever the chat id, the message, the state and the network, the call of
  \<open>send_message_safely\<close> ends with a Boolean result and never with an exception. When
  the rate check refuses the group, the result is False and \<open>client.send_message\<close> is not
  called. When the chat id is an integer, the group is admitted and the network
  delivers the message, the result is True, the one event is that call, the count of the
  key has gone up by one and \<open>config.json\<close> holds the dictionary in memory.
\<close>

theorem send_message_safely_contract:
  "(\<exists>b s'. send_message_safely net cid message s = (Inr b, s')) \<and>
   (\<not> fst (can_send_to_group cid s) \<longrightarrow>
      fst (send_message_safely net cid message s) = Inr False \<and>
      log (snd (send_message_safely net cid message s)) = log s \<and>
      calls (snd (send_message_safely net cid message s)) = calls s) \<and>
   (int_of_str cid = Some n \<and> fst (can_send_to_group cid s) \<and> net (calls s) = None \<longrightarrow>
      fst (send_message_safely net cid message s) = Inr True \<and>
      log (snd (send_message_safely net cid message s)) = log s @ [SendMessage n message] \<and>
      stored_count (snd (send_message_safely net cid message s)) (key_of cid (today s)) =
        stored_count s (key_of cid (today s)) + 1 \<and>
      config_file (snd (send_message_safely net cid message s)) =
        config (snd (send_message_safely net cid message s)))"
proof (intro conjI impI)
  show "\<exists>b s'. send_message_safely net cid message s = (Inr b, s')"
    by (rule send_message_safely_returns)
next
  assume d: "\<not> fst (can_send_to_group cid s)"
  show "fst (send_message_safely net cid message s) = Inr False"
    "log (snd (send_message_safely net cid message s)) = log s"
    "calls (snd (send_message_safely net cid message s)) = calls s"
    using send_denied [OF d] by simp_all
next
  assume a: "int_of_str cid = Some n \<and> fst (can_send_to_group cid s) \<and> net (calls s) = None"
  then have e: "send_message_safely net cid message s =
           (Inr True,
            mark_sent_to_group cid
              ((snd (can_send_to_group cid s))
                 \<lparr>calls := Suc (calls s), log := log s @ [SendMessage n message]\<rparr>))"
    by (simp add: send_delivered)
  show "fst (send_message_safely net cid message s) = Inr True"
    by (simp add: e)
  show "log (snd (send_message_safely net cid message s)) = log s @ [SendMessage n message]"
    by (simp add: e mark_frame)
  show "stored_count (snd (send_message_safely net cid message s)) (key_of cid (today s)) =
        stored_count s (key_of cid (today s)) + 1"
    by (simp add: e stored_count_mark can_send_frame stored_count_can_send)
  show "config_file (snd (send_message_safely net cid message s)) =
        config (snd (send_message_safely net cid message s))"
    by (simp add: e mark_frame)
qed


lemma int_of_str_demo: "int_of_str ''-1001'' = Some (- 1001)"
  by (simp add: int_of_str_def int_strip_def int_space_def digit_val_def)

lemma int_of_str_name: "int_of_str ''@offers'' = None"
  by (simp add: int_of_str_def int_strip_def int_space_def digit_val_def)

lemma int_of_str_separators: "int_of_str [CHR 0x1C, CHR ''1'', CHR ''2'', CHR 0x1F] = None"
  by (simp add: int_of_str_def int_strip_def int_space_def digit_val_def)

lemma int_of_str_padded: "int_of_str [CHR 0xA0, CHR ''1'', CHR ''2'', CHR 0x0A] = Some 12"
  by (simp add: int_of_str_def int_strip_def int_space_def digit_val_def)

text \<open>
  The first example group is admitted and served on the good network; with its quota
  used up it is refused and nothing is sent.
\<close>

theorem send_message_safely_contract_witness:
  "int_of_str ''-1001'' = Some (- 1001) \<and> fst (can_send_to_group ''-1001'' demo) \<and>
   net_ok (calls demo) = None \<and>
   fst (send_message_safely net_ok ''-1001'' ''A'' demo) = Inr True \<and>
   log (snd (send_message_safely net_ok ''-1001'' ''A'' demo)) = [SendMessage (- 1001) ''A''] \<and>
   stored_count (snd (send_message_safely net_ok ''-1001'' ''A'' demo)) ''-1001_2024-05-02'' = 1 \<and>
   \<not> fst (can_send_to_group ''-1001'' demo_full) \<and>
   fst (send_message_safely net_ok ''-1001'' ''A'' demo_full) = Inr False \<and>
   log (snd (send_message_safely net_ok ''-1001'' ''A'' demo_full)) = []"
  using send_message_safely_contract
          [where net = net_ok and cid = "''-1001''" and message = "''A''" and s = demo
             and n = "- 1001"]
        send_message_safely_contract
          [where net = net_ok and cid = "''-1001''" and message = "''A''" and s = demo_full
             and n = "- 1001"]
  by (simp add: int_of_str_demo can_send_fst net_ok_def key_of_def stored_count_def
                demo_full_def demo_def demo_config_def)

text \<open>
  Claim C7. When the call of \<open>client.send_message\<close> raises \<open>FloodWaitError\<close> or
  \<open>SlowModeWaitError\<close> with a wait of \<open>seconds\<close>, \<open>send_message_safely\<close> makes that
  one call, sleeps \<open>seconds\<close> and returns False: there is no second call, the count of
  every key is what it was and \<open>config.json\<close> is not written.
\<close>

theorem send_message_safely_throttled:
  assumes "int_of_str cid = Some n" and "fst (can_send_to_group cid s)"
    and "net (calls s) = Some (FloodWaitError seconds) \<or>
         net (calls s) = Some (SlowModeWaitError seconds)"
  shows "fst (send_message_safely net cid message s) = Inr False \<and>
         log (snd (send_message_safely net cid message s)) =
           log s @ [SendMessage n message, Sleep seconds] \<and>
         calls (snd (send_message_safely net cid message s)) = Suc (calls s) \<and>
         (\<forall>k. stored_count (snd (send_message_safely net cid message s)) k =
                stored_count s k) \<and>
         config_file (snd (send_message_safely net cid message s)) = config_file s"
proof -
  let ?s1 = "(snd (can_send_to_group cid s))
                 \<lparr>calls := Suc (calls s), log := log s @ [SendMessage n message]\<rparr>"
  from assms(3) have "send_message_safely net cid message s = (Inr False, sleep seconds ?s1)"
    using send_raises [OF assms(1,2), of net _ message] by auto
  then show ?thesis
    by (simp add: sleep_def stored_count_can_send can_send_frame)
qed

text \<open>The scenario of the specification: a flood wait of 5 seconds.\<close>

theorem send_message_safely_throttled_witness:
  "int_of_str ''-1001'' = Some (- 1001) \<and> fst (can_send_to_group ''-1001'' demo) \<and>
   net_flood (calls demo) = Some (FloodWaitError 5) \<and>
   fst (send_message_safely net_flood ''-1001'' ''A'' demo) = Inr False \<and>
   log (snd (send_message_safely net_flood ''-1001'' ''A'' demo)) =
     [SendMessage (- 1001) ''A'', Sleep 5] \<and>
   stored_count (snd (send_message_safely net_flood ''-1001'' ''A'' demo)) ''-1001_2024-05-02'' = 0"
proof -
  have a: "int_of_str ''-1001'' = Some (- 1001)" by (rule int_of_str_demo)
  have b: "fst (can_send_to_group ''-1001'' demo)"
    by (simp add: can_send_fst key_of_def stored_count_def demo_def demo_config_def)
  have c: "net_flood (calls demo) = Some (FloodWaitError 5) \<or>
           net_flood (calls demo) = Some (SlowModeWaitError 5)"
    by (simp add: net_flood_def demo_def)
  show ?thesis
    using send_message_safely_throttled
            [where net = net_flood and s = demo and message = "''A''", OF a b c] a b
    by (simp add: net_flood_def stored_count_def demo_def demo_config_def)
qed

text \<open>
  Claim C10. For a chat id that \<open>int\<close> rejects, the \<open>try\<close> block raises
  \<open>ValueError\<close> before anything else has happened, the last \<open>except\<close> clause turns
  it into False, and \<open>send_message_safely\<close> returns False in an unchanged state: no
  call of \<open>client.send_message\<close>, no counter touched.
\<close>

theorem send_message_safely_bad_chat_id:
  assumes "int_of_str cid = None"
  shows "send_message_safely_try net cid message s = (Inl ValueError, s) \<and>
         send_message_safely_except ValueError s = (Inr False, s) \<and>
         send_message_safely net cid message s = (Inr False, s)"
  using assms by (simp add: send_message_safely_def send_message_safely_try_def)

text \<open>
  A name instead of a number, and a number between two of the separators that
  \<open>str.strip()\<close> would remove and \<open>int\<close> does not accept.
\<close>

theorem send_message_safely_bad_chat_id_witness:
  "int_of_str ''@offers'' = None \<and>
   send_message_safely net_ok ''@offers'' ''A'' demo = (Inr False, demo) \<and>
   int_of_str [CHR 0x1C, CHR ''1'', CHR ''2'', CHR 0x1F] = None \<and>
   send_message_safely net_ok [CHR 0x1C, CHR ''1'', CHR ''2'', CHR 0x1F] ''A'' demo =
     (Inr False, demo)"
  using send_message_safely_bad_chat_id [OF int_of_str_name, of net_ok "''A''" demo]
        send_message_safely_bad_chat_id [OF int_of_str_separators, of net_ok "''A''" demo]
        int_of_str_name int_of_str_separators
  by simp

section \<open>Properties of the edit of the message count\<close>

lemma set_message_count_config:
  assumes "int_of_str inp = Some count" and "0 < count"
  shows "set_message_count inp s =
           save_config (s\<lparr>config := (config s)
             \<lparr>messages := take (nat count) (messages (config s)) @
                           map placeholder [length (messages (config s))..<nat count],
              delays := take (nat count) (delays (config s)) @
                           replicate (nat count - length (delays (config s))) 300\<rparr>\<rparr>)"
  using assms by (simp add: set_message_count_def Let_def)

text \<open>
  Claim C9. For an input that reads as a positive number \<open>count\<close>,
  \<open>set_message_count\<close> leaves the first \<open>count\<close> messages and delays as they were
  and fills up with the placeholder texts and with the delay 300, so both lists have
  the length \<open>count\<close> afterwards; the entries below the old lengths are the old ones,
  the entries from the old lengths on are placeholders and 300, and the result is saved.
\<close>

theorem set_message_count_pads:
  assumes "int_of_str inp = Some count" and "0 < count"
  shows "messages (config (set_message_count inp s)) =
           take (nat count) (messages (config s)) @
             map placeholder [length (messages (config s))..<nat count] \<and>
         delays (config (set_message_count inp s)) =
           take (nat count) (delays (config s)) @
             replicate (nat count - length (delays (config s))) 300 \<and>
         length (messages (config (set_message_count inp s))) = nat count \<and>
         length (delays (config (set_message_count inp s))) = nat count \<and>
         (\<forall>i. i < nat count \<and> i < length (messages (config s)) \<longrightarrow>
                messages (config (set_message_count inp s)) ! i = messages (config s) ! i) \<and>
         (\<forall>i. i < nat count \<and> i < length (delays (config s)) \<longrightarrow>
                delays (config (set_message_count inp s)) ! i = delays (config s) ! i) \<and>
         (\<forall>i. length (messages (config s)) \<le> i \<and> i < nat count \<longrightarrow>
                messages (config (set_message_count inp s)) ! i = placeholder i) \<and>
         (\<forall>i. length (delays (config s)) \<le> i \<and> i < nat count \<longrightarrow>
                delays (config (set_message_count inp s)) ! i = 300) \<and>
         config_file (set_message_count inp s) = config (set_message_count inp s)"
proof -
  let ?n = "nat count"
  let ?ms = "messages (config s)" and ?ds = "delays (config s)"
  let ?ms' = "take ?n ?ms @ map placeholder [length ?ms..<?n]"
  let ?ds' = "take ?n ?ds @ replicate (?n - length ?ds) 300"
  have m: "messages (config (set_message_count inp s)) = ?ms'"
    and d: "delays (config (set_message_count inp s)) = ?ds'"
    and f: "config_file (set_message_count inp s) = config (set_message_count inp s)"
    by (simp_all add: set_message_count_config [OF assms] save_config_def)
  have lm: "length ?ms' = ?n" and ld: "length ?ds' = ?n"
    by (simp_all add: min_def)
  have km: "?ms' ! i = ?ms ! i" if "i < ?n \<and> i < length ?ms" for i
    using that by (simp add: nth_append)
  have kd: "?ds' ! i = ?ds ! i" if "i < ?n \<and> i < length ?ds" for i
    using that by (simp add: nth_append)
  have pm: "?ms' ! i = placeholder i" if "length ?ms \<le> i \<and> i < ?n" for i
  proof -
    from that have "i - length ?ms < ?n - length ?ms" by arith
    then have "map placeholder [length ?ms..<?n] ! (i - length ?ms) =
               placeholder (length ?ms + (i - length ?ms))"
      by (rule nth_map_upt)
    with that show ?thesis by (simp add: nth_append min_def)
  qed
  have pd: "?ds' ! i = 300" if "length ?ds \<le> i \<and> i < ?n" for i
  proof -
    from that have "i - length ?ds < ?n - length ?ds" by arith
    then have "replicate (?n - length ?ds) (300::int) ! (i - length ?ds) = 300"
      by (rule nth_replicate)
    with that show ?thesis by (simp add: nth_append min_def)
  qed
  show ?thesis
    unfolding m d using lm ld km kd pm pd f by (intro conjI allI impI) simp_all
qed

text \<open>
  From two messages to four: two placeholders and two default delays are appended
  and the first two entries of each list stay.
\<close>

theorem set_message_count_pads_witness:
  "int_of_str ''4'' = Some 4 \<and> (0::int) < 4 \<and>
   messages (config demo) = [''A'', ''B''] \<and> delays (config demo) = [10, 20] \<and>
   messages (config (set_message_count ''4'' demo)) =
     [''A'', ''B'', ''Message 3 - please edit this'', ''Message 4 - please edit this''] \<and>
   delays (config (set_message_count ''4'' demo)) = [10, 20, 300, 300] \<and>
   config_file (set_message_count ''4'' demo) = config (set_message_count ''4'' demo)"
proof -
  have a: "int_of_str ''4'' = Some 4"
    by (simp add: int_of_str_def int_strip_def int_space_def digit_val_def)
  have b: "(0::int) < 4" by simp
  note T = set_message_count_pads [OF a b, of demo]
  have m: "messages (config (set_message_count ''4'' demo)) =
             take (nat 4) (messages (config demo)) @
               map placeholder [length (messages (config demo))..<nat 4]"
    using T by (rule conjunct1)
  have d: "delays (config (set_message_count ''4'' demo)) =
             take (nat 4) (delays (config demo)) @
               replicate (nat 4 - length (delays (config demo))) 300"
    using T by (rule conjunct1 [OF conjunct2])
  have f: "config_file (set_message_count ''4'' demo) = config (set_message_count ''4'' demo)"
    using T by simp
  have m': "take (nat 4) (messages (config demo)) @
               map placeholder [length (messages (config demo))..<nat 4] =
            [''A'', ''B'', ''Message 3 - please edit this'', ''Message 4 - please edit this'']"
    by code_simp
  have d': "take (nat 4) (delays (config demo)) @
               replicate (nat 4 - length (delays (config demo))) 300 = [10, 20, 300, 300]"
    by code_simp
  have i: "messages (config demo) = [''A'', ''B''] \<and> delays (config demo) = [10, 20]"
    by (simp add: demo_def demo_config_def)
  have m'': "messages (config (set_message_count ''4'' demo)) =
            [''A'', ''B'', ''Message 3 - please edit this'', ''Message 4 - please edit this'']"
    using m m' by (rule trans)
  have d'': "delays (config (set_message_count ''4'' demo)) = [10, 20, 300, 300]"
    using d d' by (rule trans)
  from a b i m'' d'' f show ?thesis by blast
qed

section \<open>Properties of the publishing loop\<close>

lemma same_setup_refl [simp]: "same_setup s s"
  by (simp add: same_setup_def)

lemma same_setup_trans: "same_setup s s1 \<Longrightarrow> same_setup s1 s2 \<Longrightarrow> same_setup s s2"
  by (simp add: same_setup_def)

lemma same_setup_can_send: "same_setup s (snd (can_send_to_group cid s))"
  by (simp add: same_setup_def can_send_frame)

lemma same_setup_mark: "same_setup s (mark_sent_to_group cid s)"
  by (simp add: same_setup_def mark_frame)

lemma same_setup_upd [simp]:
  "same_setup s (s'\<lparr>calls := c, log := l\<rparr>) = same_setup s s'"
  "same_setup s (s'\<lparr>log := l\<rparr>) = same_setup s s'"
  "same_setup s (s'\<lparr>calls := c\<rparr>) = same_setup s s'"
  "same_setup s (sleep d s') = same_setup s s'"
  by (simp_all add: same_setup_def sleep_def)

lemma delivered_same [simp]: "delivered net a a = 0"
  by (simp add: delivered_def)

lemma delivered_Suc:
  "delivered net a (Suc a) = (if net a = None then 1 else 0)"
  by (simp add: delivered_def)

lemma delivered_add:
  "a \<le> b \<Longrightarrow> b \<le> c \<Longrightarrow> delivered net a b + delivered net b c = delivered net a c"
proof -
  assume "a \<le> b" "b \<le> c"
  then have "[a..<c] = [a..<b] @ [b..<c]"
    by (metis le_Suc_ex upt_add_eq_append)
  then show ?thesis by (simp add: delivered_def)
qed

lemma sends_only_simps [simp]:
  "sends_only m []"
  "sends_only m (Sleep d # evs) = sends_only m evs"
  "sends_only m (SendMessage c t # evs) = (t = m \<and> sends_only m evs)"
  "sends_only m (evs @ evs') = (sends_only m evs \<and> sends_only m evs')"
  by (simp_all add: sends_only_def)

lemma send_denied_state:
  assumes "int_of_str cid = Some n" and "\<not> fst (can_send_to_group cid s)"
  shows "send_message_safely net cid message s = (Inr False, snd (can_send_to_group cid s))"
  using assms
  by (auto simp: send_message_safely_def send_message_safely_try_def
           split: option.splits prod.splits)

lemma except_cases:
  "send_message_safely_except e s = (Inr False, s) \<or>
   (\<exists>d. send_message_safely_except e s = (Inr False, sleep d s))"
  by (cases e) auto

lemma send_message_safely_step:
  "step_ok net message s (fst (send_message_safely net cid message s))
     (snd (send_message_safely net cid message s))"
proof (cases "int_of_str cid")
  case None
  then show ?thesis by (simp add: send_bad_id step_ok_def)
next
  case (Some n)
  let ?s0 = "snd (can_send_to_group cid s)"
  let ?s1 = "?s0\<lparr>calls := Suc (calls s), log := log s @ [SendMessage n message]\<rparr>"
  show ?thesis
  proof (cases "fst (can_send_to_group cid s)")
    case False
    with Some show ?thesis
      by (simp add: send_denied_state step_ok_def same_setup_can_send can_send_frame)
  next
    case True
    show ?thesis
    proof (cases "net (calls s)")
      case None
      have "same_setup s (mark_sent_to_group cid ?s0)"
        using same_setup_can_send same_setup_mark by (rule same_setup_trans)
      then show ?thesis
        using send_delivered [where net = net and message = message, OF Some True None] None
        by (simp add: step_ok_def mark_upd mark_frame can_send_frame delivered_Suc)
    next
      case (Some e)
      from except_cases [of e ?s1] show ?thesis
        using send_raises [where net = net and message = message,
                OF \<open>int_of_str cid = Some n\<close> True Some] Some
        by (auto simp: step_ok_def same_setup_can_send can_send_frame delivered_Suc sleep_def)
    qed
  qed
qed


lemma step_ok_after_sleep:
  assumes "step_ok net m (sleep d s) r s'"
  shows "step_ok net m s r s'"
proof -
  from assms obtain evs where e: "log s' = log (sleep d s) @ evs" "sends_only m evs"
    unfolding step_ok_def by blast
  then have "log s' = log s @ (Sleep d # evs) \<and> sends_only m (Sleep d # evs)"
    by (simp add: sleep_def)
  then have "\<exists>evs. log s' = log s @ evs \<and> sends_only m evs" by blast
  moreover from assms have "same_setup s s'" "calls s \<le> calls s'"
    "r = Inr True \<or> r = Inr False"
    "(if r = Inr True then 1 else 0) = delivered net (calls s) (calls s')"
    by (simp_all add: step_ok_def same_setup_def sleep_def)
  ultimately show ?thesis unfolding step_ok_def by blast
qed

lemma send_to_group_with_delay_eq:
  "send_to_group_with_delay net cid group_name message delay s =
     send_message_safely net cid message (if delay > 0 then sleep delay s else s)"
proof -
  obtain b s' where "send_message_safely net cid message (if delay > 0 then sleep delay s else s)
                       = (Inr b, s')"
    using send_message_safely_returns by blast
  then show ?thesis by (simp add: send_to_group_with_delay_def Let_def)
qed

lemma send_to_group_with_delay_step:
  "step_ok net message s (fst (send_to_group_with_delay net cid group_name message delay s))
     (snd (send_to_group_with_delay net cid group_name message delay s))"
proof (cases "delay > 0")
  case True
  have "step_ok net message (sleep delay s)
          (fst (send_message_safely net cid message (sleep delay s)))
          (snd (send_message_safely net cid message (sleep delay s)))"
    by (rule send_message_safely_step)
  then have "step_ok net message s
          (fst (send_message_safely net cid message (sleep delay s)))
          (snd (send_message_safely net cid message (sleep delay s)))"
    by (rule step_ok_after_sleep)
  with True show ?thesis by (simp add: send_to_group_with_delay_eq)
next
  case False
  then show ?thesis
    using send_message_safely_step [of net message s cid]
    by (simp add: send_to_group_with_delay_eq)
qed

lemma make_tasks_state:
  "same_setup s (snd (make_tasks gs m tasks s)) \<and>
   log (snd (make_tasks gs m tasks s)) = log s \<and>
   calls (snd (make_tasks gs m tasks s)) = calls s"
proof (induction gs arbitrary: tasks s)
  case Nil
  show ?case by simp
next
  case (Cons g gs)
  let ?s1 = "snd (can_send_to_group (chat_id g) s)"
  have s1: "same_setup s ?s1" "log ?s1 = log s" "calls ?s1 = calls s"
    by (simp_all add: same_setup_can_send can_send_frame)
  show ?case
  proof (cases "fst (can_send_to_group (chat_id g) s)")
    case True
    then have "make_tasks (g # gs) m tasks s =
               make_tasks gs m (tasks @ [(chat_id g, name g, m, int (length tasks) * 2)]) ?s1"
      by (simp add: case_prod_beta)
    with Cons.IH [where tasks = "tasks @ [(chat_id g, name g, m, int (length tasks) * 2)]"
                       and s = ?s1] s1
    show ?thesis by (auto intro: same_setup_trans)
  next
    case False
    then have "make_tasks (g # gs) m tasks s = make_tasks gs m tasks ?s1"
      by (simp add: case_prod_beta)
    with Cons.IH [where tasks = tasks and s = ?s1] s1 show ?thesis by (auto intro: same_setup_trans)
  qed
qed

lemma make_tasks_message:
  "list_all (\<lambda>t. fst (snd (snd t)) = m) tasks \<Longrightarrow>
   list_all (\<lambda>t. fst (snd (snd t)) = m) (fst (make_tasks gs m tasks s))"
  by (induction gs arbitrary: tasks s) (simp_all add: case_prod_beta)

lemma successful_sends_simps [simp]:
  "successful_sends [] = 0"
  "successful_sends (r # rs) = (if r = Inr True then 1 else 0) + successful_sends rs"
  by (simp_all add: successful_sends_def)

lemma gather_step:
  assumes "list_all (\<lambda>t. fst (snd (snd t)) = m) ts"
  shows "same_setup s (snd (gather net ts s)) \<and>
         (\<exists>evs. log (snd (gather net ts s)) = log s @ evs \<and> sends_only m evs) \<and>
         calls s \<le> calls (snd (gather net ts s)) \<and>
         length (fst (gather net ts s)) = length ts \<and>
         list_all (\<lambda>r. r = Inr True \<or> r = Inr False) (fst (gather net ts s)) \<and>
         successful_sends (fst (gather net ts s)) =
           delivered net (calls s) (calls (snd (gather net ts s)))"
  using assms
proof (induction ts arbitrary: s)
  case Nil
  show ?case by simp
next
  case (Cons t ts)
  obtain cid gname msg delay where t: "t = (cid, gname, msg, delay)"
    by (cases t) auto
  with Cons.prems have msg: "msg = m" and rest: "list_all (\<lambda>t. fst (snd (snd t)) = m) ts"
    by simp_all
  let ?r = "fst (send_to_group_with_delay net cid gname m delay s)"
  let ?s1 = "snd (send_to_group_with_delay net cid gname m delay s)"
  have st: "step_ok net m s ?r ?s1"
    by (rule send_to_group_with_delay_step)
  note ih = Cons.IH [OF rest, where s = ?s1]
  have g: "gather net (t # ts) s = (?r # fst (gather net ts ?s1), snd (gather net ts ?s1))"
    by (simp add: t msg case_prod_beta)
  from st obtain e1 where e1: "log ?s1 = log s @ e1" "sends_only m e1"
    unfolding step_ok_def by blast
  from ih obtain e2 where e2: "log (snd (gather net ts ?s1)) = log ?s1 @ e2" "sends_only m e2"
    by blast
  have l: "\<exists>evs. log (snd (gather net ts ?s1)) = log s @ evs \<and> sends_only m evs"
    using e1 e2 by (intro exI [of _ "e1 @ e2"]) simp
  have c: "calls s \<le> calls ?s1" "calls ?s1 \<le> calls (snd (gather net ts ?s1))"
    using st ih by (simp_all add: step_ok_def)
  have d: "(if ?r = Inr True then 1 else 0) + successful_sends (fst (gather net ts ?s1)) =
           delivered net (calls s) (calls (snd (gather net ts ?s1)))"
    using st ih delivered_add [OF c, of net] by (simp add: step_ok_def)
  have s: "same_setup s (snd (gather net ts ?s1))"
    using st ih by (auto simp: step_ok_def intro: same_setup_trans)
  have r: "?r = Inr True \<or> ?r = Inr False"
    using st by (simp add: step_ok_def)
  show ?case
    unfolding g using l c d s r ih by simp
qed


lemma delay_before_same_setup:
  "same_setup s s' \<Longrightarrow> delay_before s' i = delay_before s i"
  by (simp add: delay_before_def same_setup_def)

lemma publish_round:
  "\<exists>k sn evs.
     publish_loop net i (m # rest) tot s = publish_loop net (Suc i) rest (tot + k) sn \<and>
     same_setup s sn \<and> log sn = log s @ Sleep (delay_before s i) # evs \<and>
     sends_only m evs \<and> calls s \<le> calls sn \<and> k = delivered net (calls s) (calls sn)"
proof -
  let ?s1 = "sleep (delay_before s i) s"
  let ?tasks = "fst (make_tasks (groups ?s1) m [] ?s1)"
  let ?s2 = "snd (make_tasks (groups ?s1) m [] ?s1)"
  let ?rs = "fst (gather net ?tasks ?s2)"
  let ?s3 = "snd (gather net ?tasks ?s2)"
  have s1: "same_setup s ?s1" "log ?s1 = log s @ [Sleep (delay_before s i)]"
    "calls ?s1 = calls s"
    by (simp_all add: sleep_def)
  have s2: "same_setup ?s1 ?s2" "log ?s2 = log ?s1" "calls ?s2 = calls ?s1"
    using make_tasks_state [of ?s1 "groups ?s1" m "[]"] by simp_all
  have ss2: "same_setup s ?s2"
    using s1(1) s2(1) by (rule same_setup_trans)
  have unfold: "publish_loop net i (m # rest) tot s =
      (if ?tasks \<noteq> [] then publish_loop net (Suc i) rest (tot + successful_sends ?rs) ?s3
       else publish_loop net (Suc i) rest tot ?s2)"
    by (simp add: Let_def case_prod_beta delay_before_def)
  show ?thesis
  proof (cases "?tasks = []")
    case True
    have "publish_loop net i (m # rest) tot s = publish_loop net (Suc i) rest (tot + 0) ?s2"
      using True unfold by simp
    moreover have "log ?s2 = log s @ Sleep (delay_before s i) # []"
      using s1 s2 by simp
    moreover have "sends_only m []" by simp
    moreover have "calls s \<le> calls ?s2" "0 = delivered net (calls s) (calls ?s2)"
      using s1 s2 by simp_all
    ultimately show ?thesis using ss2 by blast
  next
    case False
    have "list_all (\<lambda>t. fst (snd (snd t)) = m) ?tasks"
      by (rule make_tasks_message) simp
    note g = gather_step [OF this, of ?s2 net]
    from g obtain evs where evs: "log ?s3 = log ?s2 @ evs" "sends_only m evs"
      by blast
    have "publish_loop net i (m # rest) tot s =
            publish_loop net (Suc i) rest (tot + successful_sends ?rs) ?s3"
      using False unfold by simp
    moreover have "same_setup s ?s3"
      using ss2 g by (blast intro: same_setup_trans)
    moreover have "log ?s3 = log s @ Sleep (delay_before s i) # evs"
      using evs s1 s2 by simp
    moreover have "calls s \<le> calls ?s3"
      "successful_sends ?rs = delivered net (calls s) (calls ?s3)"
      using g s1 s2 by simp_all
    ultimately show ?thesis using evs(2) by blast
  qed
qed

lemma publish_loop_step:
  "same_setup s (snd (publish_loop net i ms tot s)) \<and>
   calls s \<le> calls (snd (publish_loop net i ms tot s)) \<and>
   fst (publish_loop net i ms tot s) =
     tot + delivered net (calls s) (calls (snd (publish_loop net i ms tot s))) \<and>
   (\<exists>bs. list_all2 sends_only ms bs \<and>
         log (snd (publish_loop net i ms tot s)) =
           log s @ concat (map2 (\<lambda>d b. Sleep d # b)
                             (map (delay_before s) [i..<i + length ms]) bs))"
proof (induction ms arbitrary: i tot s)
  case Nil
  show ?case by simp
next
  case (Cons m rest)
  obtain k sn evs where r:
    "publish_loop net i (m # rest) tot s = publish_loop net (Suc i) rest (tot + k) sn"
    "same_setup s sn" "log sn = log s @ Sleep (delay_before s i) # evs"
    "sends_only m evs" "calls s \<le> calls sn" "k = delivered net (calls s) (calls sn)"
    using publish_round [of net i m rest tot s] by blast
  let ?s' = "snd (publish_loop net (Suc i) rest (tot + k) sn)"
  note ih = Cons.IH [where i = "Suc i" and tot = "tot + k" and s = sn]
  have deq: "delay_before sn = delay_before s"
    using r(2) by (intro ext) (rule delay_before_same_setup)
  define ds where "ds = map (delay_before s) [Suc i..<Suc i + length rest]"
  from ih obtain bs where bs: "list_all2 sends_only rest bs"
    "log ?s' = log sn @ concat (map2 (\<lambda>d b. Sleep d # b) ds bs)"
    unfolding deq ds_def by blast
  have "i < i + length (m # rest)" by simp
  then have "[i..<i + length (m # rest)] = i # [Suc i..<i + length (m # rest)]"
    by (rule upt_conv_Cons)
  then have "[i..<i + length (m # rest)] = i # [Suc i..<Suc i + length rest]"
    by simp
  then have u: "map (delay_before s) [i..<i + length (m # rest)] = delay_before s i # ds"
    by (simp only: ds_def list.map)
  have l: "list_all2 sends_only (m # rest) (evs # bs) \<and>
           log ?s' = log s @ concat (map2 (\<lambda>d b. Sleep d # b)
                             (map (delay_before s) [i..<i + length (m # rest)]) (evs # bs))"
    unfolding u using bs r(3,4) by simp
  have a: "same_setup s ?s'"
    using r(2) ih by (blast intro: same_setup_trans)
  have c: "calls sn \<le> calls ?s'" using ih by simp
  have t: "fst (publish_loop net (Suc i) rest (tot + k) sn) =
           tot + delivered net (calls s) (calls ?s')"
    using ih r(6) delivered_add [OF r(5) c, of net] by simp
  show ?case
    unfolding r(1) using a c r(5) t l by (intro conjI exI [of _ "evs # bs"]) simp_all
qed

lemma strip_empty_iff: "strip m = [] \<longleftrightarrow> list_all isspace m"
proof
  assume "strip m = []"
  then have a: "\<forall>c \<in> set (dropWhile isspace m). isspace c"
    by (simp add: strip_def dropWhile_eq_Nil_conv)
  have "dropWhile isspace m = []"
  proof (rule ccontr)
    assume n: "dropWhile isspace m \<noteq> []"
    then have "\<not> isspace (hd (dropWhile isspace m))" by (rule hd_dropWhile)
    moreover from n have "hd (dropWhile isspace m) \<in> set (dropWhile isspace m)" by simp
    ultimately show False using a by blast
  qed
  then show "list_all isspace m"
    by (simp add: dropWhile_eq_Nil_conv list_all_iff)
next
  assume "list_all isspace m"
  then have d: "dropWhile isspace m = []"
    by (simp add: dropWhile_eq_Nil_conv list_all_iff)
  show "strip m = []" unfolding strip_def d by simp
qed

lemma no_messages_iff:
  "no_messages c \<longleftrightarrow> messages c = [] \<or> list_all isspace (hd (messages c))"
  by (cases "messages c") (simp_all add: no_messages_def strip_empty_iff)

lemma start_publishing_runs:
  assumes "groups s \<noteq> []" and "\<not> no_messages (config s)"
    and "force_mode s \<or> lower (strip answer) = ''y''"
  shows "start_publishing net answer s =
           (Completed (fst (publish_loop net 0 (messages (config s)) 0 s)),
            snd (publish_loop net 0 (messages (config s)) 0 s))"
  using assms by (auto simp: start_publishing_def case_prod_beta)

lemma publish_loop_log_grows:
  "\<exists>evs. log (snd (publish_loop net i ms tot s)) = log s @ evs"
  using publish_loop_step [of s net i ms tot] by blast

lemma publish_loop_first_wait:
  "\<exists>evs. log (snd (publish_loop net i (m # rest) tot s)) =
           log s @ Sleep (delay_before s i) # evs"
proof -
  obtain k sn evs where r:
    "publish_loop net i (m # rest) tot s = publish_loop net (Suc i) rest (tot + k) sn"
    "log sn = log s @ Sleep (delay_before s i) # evs"
    using publish_round [of net i m rest tot s] by blast
  obtain evs' where "log (snd (publish_loop net (Suc i) rest (tot + k) sn)) = log sn @ evs'"
    using publish_loop_log_grows by blast
  with r have "log (snd (publish_loop net i (m # rest) tot s)) =
               log s @ Sleep (delay_before s i) # (evs @ evs')"
    by simp
  then show ?thesis by blast
qed

text \<open>
  Claim C5, as the code has it. \<open>start_publishing\<close> returns at once and leaves the
  state as it is when no group is registered, when the list of messages is empty, or
  when the first message is empty or all whitespace. Otherwise, outside force mode, it
  asks the operator and returns in the same way unless the answer is \<open>y\<close>. In force
  mode, or after that answer, it runs to its final report, and the first event of the
  run is the wait before the first message.
\<close>

theorem start_publishing_validation:
  "(groups s = [] \<or> messages (config s) = [] \<or>
      list_all isspace (hd (messages (config s))) \<longrightarrow>
      snd (start_publishing net answer s) = s \<and>
      (fst (start_publishing net answer s) = NoGroups \<or>
       fst (start_publishing net answer s) = NoMessages)) \<and>
   (groups s \<noteq> [] \<and> messages (config s) \<noteq> [] \<and>
      \<not> list_all isspace (hd (messages (config s))) \<and>
      \<not> force_mode s \<and> lower (strip answer) \<noteq> ''y'' \<longrightarrow>
      start_publishing net answer s = (NotConfirmed, s)) \<and>
   (groups s \<noteq> [] \<and> messages (config s) \<noteq> [] \<and>
      \<not> list_all isspace (hd (messages (config s))) \<and>
      (force_mode s \<or> lower (strip answer) = ''y'') \<longrightarrow>
      (\<exists>total_sent evs.
         fst (start_publishing net answer s) = Completed total_sent \<and>
         log (snd (start_publishing net answer s)) =
           log s @ Sleep (case delays (config s) of [] \<Rightarrow> 300 | d # _ \<Rightarrow> d) # evs))"
proof (intro conjI impI)
  assume "groups s = [] \<or> messages (config s) = [] \<or>
          list_all isspace (hd (messages (config s)))"
  then have "groups s = [] \<or> no_messages (config s)"
    by (simp add: no_messages_iff)
  then show "snd (start_publishing net answer s) = s"
    and "fst (start_publishing net answer s) = NoGroups \<or>
         fst (start_publishing net answer s) = NoMessages"
    by (auto simp: start_publishing_def)
next
  assume "groups s \<noteq> [] \<and> messages (config s) \<noteq> [] \<and>
          \<not> list_all isspace (hd (messages (config s))) \<and>
          \<not> force_mode s \<and> lower (strip answer) \<noteq> ''y''"
  then show "start_publishing net answer s = (NotConfirmed, s)"
    by (simp add: start_publishing_def no_messages_iff)
next
  assume a: "groups s \<noteq> [] \<and> messages (config s) \<noteq> [] \<and>
          \<not> list_all isspace (hd (messages (config s))) \<and>
          (force_mode s \<or> lower (strip answer) = ''y'')"
  then have r: "start_publishing net answer s =
           (Completed (fst (publish_loop net 0 (messages (config s)) 0 s)),
            snd (publish_loop net 0 (messages (config s)) 0 s))"
    by (intro start_publishing_runs) (simp_all add: no_messages_iff)
  from a obtain m rest where ms: "messages (config s) = m # rest"
    by (cases "messages (config s)") auto
  have d: "delay_before s 0 = (case delays (config s) of [] \<Rightarrow> 300 | d # _ \<Rightarrow> d)"
    by (cases "delays (config s)") (simp_all add: delay_before_def)
  obtain evs where "log (snd (publish_loop net 0 (m # rest) 0 s)) =
                      log s @ Sleep (delay_before s 0) # evs"
    using publish_loop_first_wait by blast
  then show "\<exists>total_sent evs.
         fst (start_publishing net answer s) = Completed total_sent \<and>
         log (snd (start_publishing net answer s)) =
           log s @ Sleep (case delays (config s) of [] \<Rightarrow> 300 | d # _ \<Rightarrow> d) # evs"
    by (simp add: r ms d)
qed


text \<open>The definitions that a run on a concrete state unfolds.\<close>

lemmas run_defs = start_publishing_def no_messages_def strip_def isspace_def lower_def
  lower_char_def upper_chars_def lower_chars_def send_to_group_with_delay_def
  send_message_safely_def send_message_safely_try_def client_send_message_def
  can_send_to_group_def mark_sent_to_group_def save_config_def sleep_def key_of_def
  int_of_str_def int_strip_def int_space_def digit_val_def Let_def

lemmas demo_defs = demo_def demo_config_def demo_groups_def

text \<open>
  Claim C5 as stated fails in two ways. With a group registered and the messages
  \<open>['', 'B']\<close> a non-empty message is configured, and the run is refused because the
  first one is empty. With the validation passed in normal mode, the answer \<open>n\<close> ends
  the run before any wait.
\<close>

theorem start_publishing_blank_first:
  "groups demo_blank_first \<noteq> [] \<and>
   ''B'' \<in> set (messages (config demo_blank_first)) \<and> ''B'' \<noteq> [] \<and>
   start_publishing net_ok ''y'' demo_blank_first = (NoMessages, demo_blank_first) \<and>
   groups demo \<noteq> [] \<and> messages (config demo) = [''A'', ''B''] \<and>
   start_publishing net_ok ''n'' demo = (NotConfirmed, demo)"
  by (simp add: run_defs demo_blank_first_def demo_defs)

text \<open>The example state: confirmed, refused by the operator, and without groups.\<close>

theorem start_publishing_validation_witness:
  "groups demo \<noteq> [] \<and> messages (config demo) \<noteq> [] \<and>
   \<not> list_all isspace (hd (messages (config demo))) \<and> \<not> force_mode demo \<and>
   lower (strip '' Y '') = ''y'' \<and> lower (strip '' no '') \<noteq> ''y'' \<and>
   fst (start_publishing net_ok '' Y '' demo) = Completed 6 \<and>
   hd (log (snd (start_publishing net_ok '' Y '' demo))) = Sleep 10 \<and>
   start_publishing net_ok '' no '' demo = (NotConfirmed, demo) \<and>
   snd (start_publishing net_ok ''y'' (demo\<lparr>groups := []\<rparr>)) = demo\<lparr>groups := []\<rparr>"
proof -
  have h: "groups demo \<noteq> []" "messages (config demo) \<noteq> []"
    "\<not> list_all isspace (hd (messages (config demo)))" "\<not> force_mode demo"
    by (simp_all add: demo_defs isspace_def)
  have y: "lower (strip '' Y '') = ''y''" and n: "lower (strip '' no '') \<noteq> ''y''"
    by (simp_all add: lower_def lower_char_def upper_chars_def lower_chars_def strip_def
                      isspace_def)
  have g: "groups (demo\<lparr>groups := []\<rparr>) = []" by simp
  note T = start_publishing_validation [where net = net_ok]
  from T [where s = demo and answer = "'' Y ''"] h y
  obtain total_sent evs where r:
    "fst (start_publishing net_ok '' Y '' demo) = Completed total_sent"
    "log (snd (start_publishing net_ok '' Y '' demo)) =
       log demo @ Sleep (case delays (config demo) of [] \<Rightarrow> 300 | d # _ \<Rightarrow> d) # evs"
    by blast
  from r(2) have w: "hd (log (snd (start_publishing net_ok '' Y '' demo))) = Sleep 10"
    by (simp add: demo_defs)
  have c: "fst (start_publishing net_ok '' Y '' demo) = Completed 6"
    by (simp add: run_defs demo_defs net_ok_def successful_sends_def)
  from T [where s = demo and answer = "'' no ''"] h n
  have d: "start_publishing net_ok '' no '' demo = (NotConfirmed, demo)"
    by blast
  from T [where s = "demo\<lparr>groups := []\<rparr>" and answer = "''y''"] g
  have e: "snd (start_publishing net_ok ''y'' (demo\<lparr>groups := []\<rparr>)) = demo\<lparr>groups := []\<rparr>"
    by blast
  from h y n c w d e show ?thesis by blast
qed

lemma map2_by_index:
  assumes "length bs = n"
  shows "map2 f (map g [i..<i + n]) bs = map (\<lambda>j. f (g (i + j)) (bs ! j)) [0..<n]"
  using assms by (intro nth_equalityI) simp_all

text \<open>
  Claim C3. When the run is not refused at its entry, the events it adds are one block
  per message, in the order of the messages. The block of the message of index \<open>i\<close>
  starts with the sleep of \<open>delays[i]\<close>, or of 300 seconds when the list of delays is
  too short; what follows in the block, up to the sleep of the next message, is the
  batch of that message, and every text sent in it is that message. So the wait comes
  before the sends of its message, and nothing of a later message, neither its wait
  nor a send, comes before the batch of an earlier one is over.
\<close>

theorem start_publishing_order:
  assumes "groups s \<noteq> []" and "\<not> no_messages (config s)"
    and "force_mode s \<or> lower (strip answer) = ''y''"
  shows "\<exists>bs. length bs = length (messages (config s)) \<and>
           (\<forall>i. i < length (messages (config s)) \<longrightarrow>
                  sends_only (messages (config s) ! i) (bs ! i)) \<and>
           log (snd (start_publishing net answer s)) =
             log s @
             concat (map (\<lambda>i. Sleep (if i < length (delays (config s))
                                        then delays (config s) ! i else 300) # bs ! i)
                         [0..<length (messages (config s))])"
proof -
  let ?ms = "messages (config s)"
  have r: "snd (start_publishing net answer s) = snd (publish_loop net 0 ?ms 0 s)"
    using start_publishing_runs [OF assms, of net] by simp
  obtain bs where bs: "list_all2 sends_only ?ms bs"
    "log (snd (publish_loop net 0 ?ms 0 s)) =
       log s @ concat (map2 (\<lambda>d b. Sleep d # b)
                         (map (delay_before s) [0..<0 + length ?ms]) bs)"
    using publish_loop_step [of s net 0 ?ms 0] by blast
  from bs(1) have len: "length bs = length ?ms"
    and nth: "\<And>i. i < length ?ms \<Longrightarrow> sends_only (?ms ! i) (bs ! i)"
    by (simp_all add: list_all2_conv_all_nth)
  have "map2 (\<lambda>d b. Sleep d # b) (map (delay_before s) [0..<0 + length ?ms]) bs =
        map (\<lambda>j. Sleep (delay_before s (0 + j)) # bs ! j) [0..<length ?ms]"
    using len by (rule map2_by_index)
  with bs(2) have "log (snd (publish_loop net 0 ?ms 0 s)) =
       log s @ concat (map (\<lambda>i. Sleep (if i < length (delays (config s))
                                        then delays (config s) ! i else 300) # bs ! i)
                         [0..<length ?ms])"
    by (simp add: delay_before_def)
  with len nth r show ?thesis by auto
qed

text \<open>
  The messages A and B with the delays 10 and 20 and three groups: 10 seconds, A to
  the three groups, 20 seconds, B to the three groups.
\<close>

theorem start_publishing_order_witness:
  "groups demo \<noteq> [] \<and> \<not> no_messages (config demo) \<and> lower (strip ''y'') = ''y'' \<and>
   messages (config demo) = [''A'', ''B''] \<and> delays (config demo) = [10, 20] \<and>
   log (snd (start_publishing net_ok ''y'' demo)) =
     [Sleep 10, SendMessage (- 1001) ''A'', Sleep 2, SendMessage (- 1002) ''A'', Sleep 4,
      SendMessage (- 1003) ''A'',
      Sleep 20, SendMessage (- 1001) ''B'', Sleep 2, SendMessage (- 1002) ''B'', Sleep 4,
      SendMessage (- 1003) ''B''] \<and>
   (\<exists>bs. length bs = 2 \<and> sends_only ''A'' (bs ! 0) \<and> sends_only ''B'' (bs ! 1) \<and>
         log (snd (start_publishing net_ok ''y'' demo)) =
           Sleep 10 # bs ! 0 @ Sleep 20 # bs ! 1)"
proof -
  have a: "groups demo \<noteq> []" by (simp add: demo_defs)
  have b: "\<not> no_messages (config demo)" by (simp add: run_defs demo_defs)
  have c: "force_mode demo \<or> lower (strip ''y'') = ''y''" by (simp add: run_defs)
  have m: "messages (config demo) = [''A'', ''B'']" "delays (config demo) = [10, 20]"
    "log demo = []"
    by (simp_all add: demo_defs)
  have u: "[0..<2] = [0, Suc 0]" by (simp add: numeral_2_eq_2)
  obtain bs where bs: "length bs = length (messages (config demo))"
    "\<forall>i. i < length (messages (config demo)) \<longrightarrow>
          sends_only (messages (config demo) ! i) (bs ! i)"
    "log (snd (start_publishing net_ok ''y'' demo)) =
             log demo @
             concat (map (\<lambda>i. Sleep (if i < length (delays (config demo))
                                        then delays (config demo) ! i else 300) # bs ! i)
                         [0..<length (messages (config demo))])"
    using start_publishing_order [OF a b c, of net_ok] by blast
  have "sends_only ''A'' (bs ! 0)"
    using bs(2) [rule_format, of 0] by (simp add: m)
  moreover have "sends_only ''B'' (bs ! 1)"
    using bs(2) [rule_format, of 1] by (simp add: m)
  moreover from bs(3) have "log (snd (start_publishing net_ok ''y'' demo)) =
           Sleep 10 # bs ! 0 @ Sleep 20 # bs ! 1"
    unfolding m by (simp add: u)
  moreover from bs(1) have "length bs = 2" by (simp add: m)
  ultimately have e: "\<exists>bs. length bs = 2 \<and> sends_only ''A'' (bs ! 0) \<and>
         sends_only ''B'' (bs ! 1) \<and>
         log (snd (start_publishing net_ok ''y'' demo)) =
           Sleep 10 # bs ! 0 @ Sleep 20 # bs ! 1"
    by blast
  have l: "log (snd (start_publishing net_ok ''y'' demo)) =
     [Sleep 10, SendMessage (- 1001) ''A'', Sleep 2, SendMessage (- 1002) ''A'', Sleep 4,
      SendMessage (- 1003) ''A'',
      Sleep 20, SendMessage (- 1001) ''B'', Sleep 2, SendMessage (- 1002) ''B'', Sleep 4,
      SendMessage (- 1003) ''B'']"
    by (simp add: run_defs demo_defs net_ok_def)
  from a b c m e l show ?thesis by (simp add: run_defs)
qed

lemma gather_count:
  "calls s \<le> calls (snd (gather net ts s)) \<and>
   length (fst (gather net ts s)) = length ts \<and>
   list_all (\<lambda>r. r = Inr True \<or> r = Inr False) (fst (gather net ts s)) \<and>
   successful_sends (fst (gather net ts s)) =
     delivered net (calls s) (calls (snd (gather net ts s)))"
proof (induction ts arbitrary: s)
  case Nil
  show ?case by simp
next
  case (Cons t ts)
  obtain cid gname msg delay where t: "t = (cid, gname, msg, delay)"
    by (cases t) auto
  let ?r = "fst (send_to_group_with_delay net cid gname msg delay s)"
  let ?s1 = "snd (send_to_group_with_delay net cid gname msg delay s)"
  have st: "step_ok net msg s ?r ?s1"
    by (rule send_to_group_with_delay_step)
  note ih = Cons.IH [where s = ?s1]
  have g: "gather net (t # ts) s = (?r # fst (gather net ts ?s1), snd (gather net ts ?s1))"
    by (simp add: t case_prod_beta)
  have c: "calls s \<le> calls ?s1" "calls ?s1 \<le> calls (snd (gather net ts ?s1))"
    using st ih by (simp_all add: step_ok_def)
  have d: "(if ?r = Inr True then 1 else 0) + successful_sends (fst (gather net ts ?s1)) =
           delivered net (calls s) (calls (snd (gather net ts ?s1)))"
    using st ih delivered_add [OF c, of net] by (simp add: step_ok_def)
  have r: "?r = Inr True \<or> ?r = Inr False"
    using st by (simp add: step_ok_def)
  show ?case
    unfolding g using c d r ih by simp
qed

lemma successful_sends_append:
  "successful_sends (rs @ rs') = successful_sends rs + successful_sends rs'"
  by (simp add: successful_sends_def)

section \<open>Properties of the batch and its tally\<close>

lemma sent_of_append [simp]: "sent_of (a @ b) = sent_of a @ sent_of b"
  by (induction a rule: sent_of.induct) simp_all

lemma new_events_same [simp]: "new_events s s = []"
  by (simp add: new_events_def)

lemma new_events_eq: "log s' = log s @ evs \<Longrightarrow> new_events s s' = evs"
  by (simp add: new_events_def)

lemma new_events_trans:
  assumes "\<exists>e1. log s1 = log s @ e1" and "\<exists>e2. log s2 = log s1 @ e2"
  shows "new_events s s2 = new_events s s1 @ new_events s1 s2"
  using assms by (auto simp: new_events_def)

lemma attempted_frame:
  assumes "same_setup s s'" and "stored_count s' (key_of cid (today s)) =
                                   stored_count s (key_of cid (today s))"
  shows "attempted cid s' = attempted cid s"
  using assms by (simp add: attempted_def can_send_fst same_setup_def)

lemma send_message_safely_exact:
  "exact_step net cid message s (fst (send_message_safely net cid message s))
     (snd (send_message_safely net cid message s))"
proof (cases "int_of_str cid")
  case None
  then show ?thesis by (simp add: send_bad_id exact_step_def attempted_def wire_def)
next
  case (Some n)
  let ?s0 = "snd (can_send_to_group cid s)"
  let ?s1 = "?s0\<lparr>calls := Suc (calls s), log := log s @ [SendMessage n message]\<rparr>"
  show ?thesis
  proof (cases "fst (can_send_to_group cid s)")
    case False
    with Some show ?thesis
      by (simp add: send_denied_state exact_step_def attempted_def can_send_frame
                    stored_count_can_send new_events_def wire_def)
  next
    case True
    show ?thesis
    proof (cases "net (calls s)")
      case None
      show ?thesis
        using send_delivered [where net = net and message = message, OF Some True None]
              None Some True
        by (simp add: exact_step_def attempted_def mark_upd mark_frame can_send_frame
                      stored_count_mark stored_count_can_send new_events_def wire_def)
    next
      case (Some e)
      from except_cases [of e ?s1] show ?thesis
        using send_raises [where net = net and message = message,
                OF \<open>int_of_str cid = Some n\<close> True Some] Some True
              \<open>int_of_str cid = Some n\<close>
        by (auto simp: exact_step_def attempted_def can_send_frame stored_count_can_send
                       new_events_def sleep_def wire_def)
    qed
  qed
qed


lemma exact_step_after_sleep:
  assumes "exact_step net cid m (sleep d s) r s'" and "\<exists>evs. log s' = log (sleep d s) @ evs"
  shows "exact_step net cid m s r s'"
proof -
  have a: "attempted cid (sleep d s) = attempted cid s"
    by (rule attempted_frame) (simp_all add: sleep_def stored_count_def)
  from assms(2) obtain evs where "log s' = log s @ Sleep d # evs"
    by (auto simp: sleep_def)
  then have n: "sent_of (new_events s s') = sent_of (new_events (sleep d s) s')"
    by (simp add: new_events_def sleep_def)
  have k: "stored_count (sleep d s) = stored_count s" "calls (sleep d s) = calls s"
    "today (sleep d s) = today s"
    by (simp_all add: sleep_def stored_count_def fun_eq_iff)
  from assms(1) show ?thesis
    unfolding exact_step_def a n k by simp
qed

lemma send_to_group_with_delay_exact:
  "exact_step net cid message s
     (fst (send_to_group_with_delay net cid group_name message delay s))
     (snd (send_to_group_with_delay net cid group_name message delay s))"
proof (cases "delay > 0")
  case True
  let ?s1 = "sleep delay s"
  have "exact_step net cid message ?s1 (fst (send_message_safely net cid message ?s1))
          (snd (send_message_safely net cid message ?s1))"
    by (rule send_message_safely_exact)
  moreover have "\<exists>evs. log (snd (send_message_safely net cid message ?s1)) = log ?s1 @ evs"
    using send_message_safely_step [of net message ?s1 cid] by (auto simp: step_ok_def)
  ultimately have "exact_step net cid message s (fst (send_message_safely net cid message ?s1))
          (snd (send_message_safely net cid message ?s1))"
    by (rule exact_step_after_sleep)
  with True show ?thesis by (simp add: send_to_group_with_delay_eq)
next
  case False
  then show ?thesis
    using send_message_safely_exact [of net cid message s]
    by (simp add: send_to_group_with_delay_eq)
qed

lemma gather_append:
  "gather net (ts @ ts') s =
     (fst (gather net ts s) @ fst (gather net ts' (snd (gather net ts s))),
      snd (gather net ts' (snd (gather net ts s))))"
proof (induction ts arbitrary: s)
  case Nil
  show ?case by simp
next
  case (Cons t ts)
  obtain cid gname msg delay where t: "t = (cid, gname, msg, delay)"
    by (cases t) auto
  show ?case
    by (simp add: t case_prod_beta Cons.IH)
qed

lemma gather_single: "gather net [t] s = ([fst (run_task net t s)], snd (run_task net t s))"
  by (cases t) (simp add: run_task_def case_prod_beta)

lemma gather_Cons:
  "gather net (t # ts) s =
     (fst (run_task net t s) # fst (gather net ts (snd (run_task net t s))),
      snd (gather net ts (snd (run_task net t s))))"
  by (cases t) (simp add: run_task_def case_prod_beta)

lemma gather_nth:
  assumes "k < length ts"
  shows "fst (gather net ts s) ! k = fst (run_task net (ts ! k) (snd (gather net (take k ts) s)))"
    and "snd (gather net (take (Suc k) ts) s) =
           snd (run_task net (ts ! k) (snd (gather net (take k ts) s)))"
proof -
  let ?s1 = "snd (gather net (take k ts) s)"
  have len: "length (fst (gather net (take k ts) s)) = k"
    using assms gather_count [of s net "take k ts"] by simp
  have "ts = take k ts @ ts ! k # drop (Suc k) ts"
    using assms by (rule id_take_nth_drop)
  then have "fst (gather net ts s) =
      fst (gather net (take k ts @ ts ! k # drop (Suc k) ts) s)" by simp
  also have "\<dots> = fst (gather net (take k ts) s) @
        fst (run_task net (ts ! k) ?s1) #
        fst (gather net (drop (Suc k) ts) (snd (run_task net (ts ! k) ?s1)))"
    by (simp only: gather_append gather_Cons fst_conv snd_conv)
  finally show "fst (gather net ts s) ! k = fst (run_task net (ts ! k) ?s1)"
    using len by (simp add: nth_append)
  have "take (Suc k) ts = take k ts @ [ts ! k]"
    using assms by (rule take_Suc_conv_app_nth)
  then show "snd (gather net (take (Suc k) ts) s) = snd (run_task net (ts ! k) ?s1)"
    by (simp only: gather_append gather_single snd_conv)
qed


lemma run_task_step:
  "\<exists>m. step_ok net m s (fst (run_task net t s)) (snd (run_task net t s))"
  by (cases t) (auto simp: run_task_def intro: send_to_group_with_delay_step)

lemma run_task_log_grows: "\<exists>evs. log (snd (run_task net t s)) = log s @ evs"
  using run_task_step [of net s t] by (auto simp: step_ok_def)

lemma run_task_same_setup: "same_setup s (snd (run_task net t s))"
  using run_task_step [of net s t] by (auto simp: step_ok_def)

lemma gather_log_grows: "\<exists>evs. log (snd (gather net ts s)) = log s @ evs"
proof (induction ts arbitrary: s)
  case Nil
  show ?case by simp
next
  case (Cons t ts)
  obtain e1 where "log (snd (run_task net t s)) = log s @ e1"
    using run_task_log_grows by blast
  moreover obtain e2 where "log (snd (gather net ts (snd (run_task net t s)))) =
                              log (snd (run_task net t s)) @ e2"
    using Cons.IH by blast
  ultimately have "log (snd (gather net (t # ts) s)) = log s @ (e1 @ e2)"
    by (simp add: gather_Cons)
  then show ?case by blast
qed

lemma key_of_inject [simp]: "key_of a d = key_of b d \<longleftrightarrow> a = b"
  by (simp add: key_of_def)

lemma run_task_exact:
  "exact_step net (fst t) (fst (snd (snd t))) s (fst (run_task net t s))
     (snd (run_task net t s))"
  by (cases t) (simp add: run_task_def send_to_group_with_delay_exact)

lemma wire_task:
  "(\<lambda>(cid, group_name, message, delay). wire cid message) =
   (\<lambda>t. wire (fst t) (fst (snd (snd t))))"
  by (auto simp: fun_eq_iff)

lemma gather_all_attempted:
  assumes "list_all (\<lambda>t. attempted (fst t) s) ts" and "distinct (map fst ts)"
  shows "fst (gather net ts s) = map (\<lambda>k. Inr (net (calls s + k) = None)) [0..<length ts] \<and>
         calls (snd (gather net ts s)) = calls s + length ts \<and>
         sent_of (new_events s (snd (gather net ts s))) =
           concat (map (\<lambda>(cid, group_name, message, delay). wire cid message) ts)"
  using assms
proof (induction ts arbitrary: s)
  case Nil
  show ?case by simp
next
  case (Cons t ts)
  let ?r = "fst (run_task net t s)" and ?s1 = "snd (run_task net t s)"
  let ?s2 = "snd (gather net ts ?s1)"
  from Cons.prems have att: "attempted (fst t) s"
    and rest: "list_all (\<lambda>t. attempted (fst t) s) ts"
    and other: "\<forall>u \<in> set ts. fst u \<noteq> fst t" and dist: "distinct (map fst ts)"
    by (auto simp: image_iff)
  have ex: "exact_step net (fst t) (fst (snd (snd t))) s ?r ?s1"
    by (rule run_task_exact)
  have ss: "same_setup s ?s1" by (rule run_task_same_setup)
  from ex att have r: "?r = Inr (net (calls s) = None)" and c: "calls ?s1 = Suc (calls s)"
    by (simp_all add: exact_step_def)
  from ex att have w: "sent_of (new_events s ?s1) = wire (fst t) (fst (snd (snd t)))"
    by (simp add: exact_step_def)
  have keep: "attempted (fst u) ?s1" if "u \<in> set ts" for u
  proof -
    from that other have "fst u \<noteq> fst t" by blast
    then have "stored_count ?s1 (key_of (fst u) (today s)) =
               stored_count s (key_of (fst u) (today s))"
      using ex by (simp add: exact_step_def)
    with ss have "attempted (fst u) ?s1 = attempted (fst u) s"
      by (rule attempted_frame)
    with rest that show ?thesis by (simp add: list_all_iff)
  qed
  then have "list_all (\<lambda>t. attempted (fst t) ?s1) ts"
    by (simp add: list_all_iff)
  from Cons.IH [OF this dist] have ih:
    "fst (gather net ts ?s1) = map (\<lambda>k. Inr (net (calls ?s1 + k) = None)) [0..<length ts]"
    "calls ?s2 = calls ?s1 + length ts"
    "sent_of (new_events ?s1 ?s2) =
       concat (map (\<lambda>(cid, group_name, message, delay). wire cid message) ts)"
    by simp_all
  have ne: "new_events s ?s2 = new_events s ?s1 @ new_events ?s1 ?s2"
    using run_task_log_grows gather_log_grows by (rule new_events_trans)
  have m: "map (\<lambda>k. Inr (net (calls s + k) = None)) [0..<length (t # ts)] =
           Inr (net (calls s) = None) #
           map (\<lambda>k. Inr (net (calls ?s1 + k) = None)) [0..<length ts]"
    by (simp add: map_upt_Suc c del: upt_Suc)
  show ?case
    unfolding gather_Cons fst_conv snd_conv m ne wire_task
    using r ih [unfolded wire_task] c w by simp
qed


lemma make_tasks_counts:
  "stored_count (snd (make_tasks gs m tasks s)) k = stored_count s k"
  by (induction gs arbitrary: tasks s) (simp_all add: case_prod_beta stored_count_can_send)

lemma can_send_fst_after:
  "fst (can_send_to_group cid (snd (can_send_to_group cid' s))) = fst (can_send_to_group cid s)"
  by (simp add: can_send_fst stored_count_can_send can_send_frame)

lemma make_tasks_all:
  assumes "list_all (\<lambda>g. fst (can_send_to_group (chat_id g) s)) gs"
  shows "map (\<lambda>t. (fst t, fst (snd (snd t)))) (fst (make_tasks gs m tasks s)) =
           map (\<lambda>t. (fst t, fst (snd (snd t)))) tasks @ map (\<lambda>g. (chat_id g, m)) gs"
  using assms
proof (induction gs arbitrary: tasks s)
  case Nil
  show ?case by simp
next
  case (Cons g gs)
  let ?s1 = "snd (can_send_to_group (chat_id g) s)"
  from Cons.prems have g: "fst (can_send_to_group (chat_id g) s)"
    and "list_all (\<lambda>g. fst (can_send_to_group (chat_id g) s)) gs"
    by simp_all
  then have "list_all (\<lambda>h. fst (can_send_to_group (chat_id h) ?s1)) gs"
    by (simp add: can_send_fst_after)
  from Cons.IH [OF this, of "tasks @ [(chat_id g, name g, m, int (length tasks) * 2)]"] g
  show ?case by (simp add: case_prod_beta)
qed

lemma groups_sleep: "groups (sleep d s) = groups s"
  by (simp add: sleep_def)

lemma publish_round_exact:
  assumes "list_all (\<lambda>g. attempted (chat_id g) s) (groups s)"
    and "distinct (map chat_id (groups s))"
  shows "\<exists>s3. publish_loop net i (m # rest) tot s =
                publish_loop net (Suc i) rest
                  (tot + delivered net (calls s) (calls s + length (groups s))) s3 \<and>
              calls s3 = calls s + length (groups s) \<and>
              sent_of (new_events s s3) = concat (map (\<lambda>g. wire (chat_id g) m) (groups s)) \<and>
              same_setup s s3"
proof -
  let ?s1 = "sleep (delay_before s i) s"
  let ?tasks = "fst (make_tasks (groups s) m [] ?s1)"
  let ?s2 = "snd (make_tasks (groups s) m [] ?s1)"
  let ?rs = "fst (gather net ?tasks ?s2)"
  let ?s3 = "snd (gather net ?tasks ?s2)"
  let ?proj = "\<lambda>t::task. (fst t, fst (snd (snd t)))"
  have s1: "same_setup s ?s1" "log ?s1 = log s @ [Sleep (delay_before s i)]"
    "calls ?s1 = calls s" "groups ?s1 = groups s" "\<And>k. stored_count ?s1 k = stored_count s k"
    by (simp_all add: sleep_def stored_count_def)
  have s2: "same_setup ?s1 ?s2" "log ?s2 = log ?s1" "calls ?s2 = calls ?s1"
    using make_tasks_state [of ?s1 "groups s" m "[]"] by simp_all
  have cs2: "calls ?s2 = calls s" using s2(3) s1(3) by (rule trans)
  have ss2: "same_setup s ?s2"
    using s1(1) s2(1) by (rule same_setup_trans)
  have c2: "\<And>k. stored_count ?s2 k = stored_count s k"
    by (simp add: make_tasks_counts s1(5))
  have att2: "attempted cid ?s2 = attempted cid s" for cid
    using ss2 c2 by (rule attempted_frame)
  have att1: "attempted cid ?s1 = attempted cid s" for cid
    using s1(1) s1(5) by (rule attempted_frame)
  have "fst (can_send_to_group cid ?s1) = fst (can_send_to_group cid s)" for cid
    by (simp add: can_send_fst s1(5)) (simp add: sleep_def)
  then have "list_all (\<lambda>g. fst (can_send_to_group (chat_id g) ?s1)) (groups s)"
    using assms(1) by (simp add: list_all_iff attempted_def)
  then have pr: "map ?proj ?tasks = map (\<lambda>g. (chat_id g, m)) (groups s)"
    using make_tasks_all [of ?s1 "groups s" m "[]"] by simp
  then have "map fst (map ?proj ?tasks) = map fst (map (\<lambda>g. (chat_id g, m)) (groups s))"
    by simp
  then have ids: "map fst ?tasks = map chat_id (groups s)"
    by (simp add: comp_def)
  then have len: "length ?tasks = length (groups s)"
    by (metis length_map)
  have dist: "distinct (map fst ?tasks)"
    using assms(2) ids by simp
  have all: "list_all (\<lambda>t. attempted (fst t) ?s2) ?tasks"
  proof -
    have "attempted (fst t) s" if "t \<in> set ?tasks" for t
    proof -
      from that have "fst t \<in> set (map fst ?tasks)" by simp
      then have "fst t \<in> set (map chat_id (groups s))" by (simp only: ids)
      then obtain g where "g \<in> set (groups s)" "fst t = chat_id g" by auto
      with assms(1) show ?thesis by (simp add: list_all_iff)
    qed
    then show ?thesis by (simp add: list_all_iff att2)
  qed
  note g = gather_all_attempted [OF all dist, of net]
  have "concat (map (\<lambda>(cid, group_name, message, delay). wire cid message) ?tasks) =
        concat (map (\<lambda>p. wire (fst p) (snd p)) (map ?proj ?tasks))"
    by (simp add: wire_task comp_def)
  also have "\<dots> = concat (map (\<lambda>g. wire (chat_id g) m) (groups s))"
    unfolding pr by (simp add: comp_def)
  finally have w: "sent_of (new_events ?s2 ?s3) = concat (map (\<lambda>g. wire (chat_id g) m) (groups s))"
    using g by simp
  have l2: "log ?s2 = log s @ [Sleep (delay_before s i)]"
    using s2(2) s1(2) by (rule trans)
  have ne: "new_events s ?s3 = new_events s ?s2 @ new_events ?s2 ?s3"
  proof (rule new_events_trans)
    show "\<exists>e1. log ?s2 = log s @ e1" using l2 by blast
    show "\<exists>e2. log ?s3 = log ?s2 @ e2" by (rule gather_log_grows)
  qed
  have n2: "new_events s ?s2 = [Sleep (delay_before s i)]"
    using l2 by (rule new_events_eq)
  have sent: "sent_of (new_events s ?s3) = concat (map (\<lambda>g. wire (chat_id g) m) (groups s))"
    unfolding ne n2 using w by simp
  have c3: "calls ?s3 = calls s + length (groups s)"
    using g len cs2 by simp
  have tally: "successful_sends ?rs = delivered net (calls s) (calls s + length (groups s))"
    using gather_count [of ?s2 net ?tasks] c3 cs2 by simp
  have ss3: "same_setup s ?s3"
  proof (cases "?tasks = []")
    case True
    then show ?thesis using ss2 by simp
  next
    case False
    have "list_all (\<lambda>t. fst (snd (snd t)) = m) ?tasks"
      by (rule make_tasks_message) simp
    from gather_step [OF this, of ?s2 net] ss2 show ?thesis
      by (blast intro: same_setup_trans)
  qed
  have unfold: "publish_loop net i (m # rest) tot s =
      (if ?tasks \<noteq> [] then publish_loop net (Suc i) rest (tot + successful_sends ?rs) ?s3
       else publish_loop net (Suc i) rest tot ?s2)"
    by (simp add: Let_def case_prod_beta delay_before_def groups_sleep)
  have "publish_loop net i (m # rest) tot s =
          publish_loop net (Suc i) rest
            (tot + delivered net (calls s) (calls s + length (groups s))) ?s3"
  proof (cases "?tasks = []")
    case True
    with len have "length (groups s) = 0" by simp
    with True unfold show ?thesis by simp
  next
    case False
    with unfold tally show ?thesis by simp
  qed
  with c3 sent ss3 show ?thesis by blast
qed

text \<open>
  Claim C8. \<open>gather\<close> gives one result for every task, and the task of index \<open>k\<close> is
  run, whatever the tasks before it returned, from the state they left; its result
  is the result at index \<open>k\<close>. \<open>send_to_group_with_delay\<close> is the stagger sleep
  followed by \<open>send_message_safely\<close>, whose result it passes on: True when the send is
  attempted and delivered, False in every other case, the failing call of the network
  among them, and one call of \<open>client.send_message\<close> exactly when the send is
  attempted. So in a batch of distinct chat ids that are all attempted, every group
  gets its one call, in the order of the batch, and the result of index \<open>k\<close> is True
  exactly when the call number \<open>k\<close> of the batch was delivered, whatever the other calls
  raised. \<open>successful_sends\<close> counts the results that are True and passes over an
  exception object or a False at any place of the list; that count is the number of
  calls the network delivered during the batch. A round of the loop over such groups
  calls every group once and goes on with \<open>total_sent\<close> raised by the number of
  deliveries; after the last message the loop returns the total, which
  \<open>start_publishing\<close> reports, and which is the number of deliveries of the whole run.
\<close>

theorem tally_counts_successes:
  "length (fst (gather net tasks s)) = length tasks \<and>
   (\<forall>k. k < length tasks \<longrightarrow>
      fst (gather net tasks s) ! k =
        fst (run_task net (tasks ! k) (snd (gather net (take k tasks) s))) \<and>
      snd (gather net (take (Suc k) tasks) s) =
        snd (run_task net (tasks ! k) (snd (gather net (take k tasks) s)))) \<and>
   send_to_group_with_delay net cid group_name message delay s =
     send_message_safely net cid message (if delay > 0 then sleep delay s else s) \<and>
   fst (send_to_group_with_delay net cid group_name message delay s) =
     Inr (attempted cid s \<and> net (calls s) = None) \<and>
   calls (snd (send_to_group_with_delay net cid group_name message delay s)) =
     calls s + (if attempted cid s then 1 else 0) \<and>
   sent_of (new_events s (snd (send_to_group_with_delay net cid group_name message delay s))) =
     (if attempted cid s then wire cid message else []) \<and>
   (list_all (\<lambda>t. attempted (fst t) s) tasks \<and> distinct (map fst tasks) \<longrightarrow>
      fst (gather net tasks s) =
        map (\<lambda>k. Inr (net (calls s + k) = None)) [0..<length tasks] \<and>
      calls (snd (gather net tasks s)) = calls s + length tasks \<and>
      sent_of (new_events s (snd (gather net tasks s))) =
        concat (map (\<lambda>(cid, group_name, message, delay). wire cid message) tasks)) \<and>
   successful_sends (fst (gather net tasks s)) =
     delivered net (calls s) (calls (snd (gather net tasks s))) \<and>
   successful_sends [] = 0 \<and>
   successful_sends (rs @ Inl e # rs') = successful_sends (rs @ rs') \<and>
   successful_sends (rs @ Inr False # rs') = successful_sends (rs @ rs') \<and>
   successful_sends (rs @ Inr True # rs') = Suc (successful_sends (rs @ rs')) \<and>
   (list_all (\<lambda>g. attempted (chat_id g) s) (groups s) \<and> distinct (map chat_id (groups s)) \<longrightarrow>
      (\<exists>s3. publish_loop net i (m # rest) tot s =
               publish_loop net (Suc i) rest
                 (tot + delivered net (calls s) (calls s + length (groups s))) s3 \<and>
             calls s3 = calls s + length (groups s) \<and>
             sent_of (new_events s s3) =
               concat (map (\<lambda>g. wire (chat_id g) m) (groups s)))) \<and>
   publish_loop net i [] tot s = (tot, s) \<and>
   fst (publish_loop net i ms tot s) =
     tot + delivered net (calls s) (calls (snd (publish_loop net i ms tot s))) \<and>
   (groups s \<noteq> [] \<and> \<not> no_messages (config s) \<and>
      (force_mode s \<or> lower (strip answer) = ''y'') \<longrightarrow>
      start_publishing net answer s =
        (Completed (fst (publish_loop net 0 (messages (config s)) 0 s)),
         snd (publish_loop net 0 (messages (config s)) 0 s))) \<and>
   (fst (start_publishing net answer s) = Completed total_sent \<longrightarrow>
      total_sent = delivered net (calls s) (calls (snd (start_publishing net answer s))))"
proof (intro conjI impI allI)
  assume a: "fst (start_publishing net answer s) = Completed total_sent"
  then have "start_publishing net answer s =
           (Completed (fst (publish_loop net 0 (messages (config s)) 0 s)),
            snd (publish_loop net 0 (messages (config s)) 0 s))"
    by (auto simp: start_publishing_def case_prod_beta split: if_splits)
  with a show "total_sent =
      delivered net (calls s) (calls (snd (start_publishing net answer s)))"
    using publish_loop_step [of s net 0 "messages (config s)" 0] by simp
next
  assume "groups s \<noteq> [] \<and> \<not> no_messages (config s) \<and>
          (force_mode s \<or> lower (strip answer) = ''y'')"
  then show "start_publishing net answer s =
        (Completed (fst (publish_loop net 0 (messages (config s)) 0 s)),
         snd (publish_loop net 0 (messages (config s)) 0 s))"
    by (intro start_publishing_runs) simp_all
next
  assume "list_all (\<lambda>g. attempted (chat_id g) s) (groups s) \<and> distinct (map chat_id (groups s))"
  then show "\<exists>s3. publish_loop net i (m # rest) tot s =
               publish_loop net (Suc i) rest
                 (tot + delivered net (calls s) (calls s + length (groups s))) s3 \<and>
             calls s3 = calls s + length (groups s) \<and>
             sent_of (new_events s s3) =
               concat (map (\<lambda>g. wire (chat_id g) m) (groups s))"
    using publish_round_exact [of s net i m rest tot] by blast
next
  assume h: "list_all (\<lambda>t. attempted (fst t) s) tasks \<and> distinct (map fst tasks)"
  note g = gather_all_attempted [of s tasks net]
  from h g show "fst (gather net tasks s) =
        map (\<lambda>k. Inr (net (calls s + k) = None)) [0..<length tasks]" by blast
  from h g show "calls (snd (gather net tasks s)) = calls s + length tasks" by blast
  from h g show "sent_of (new_events s (snd (gather net tasks s))) =
        concat (map (\<lambda>(cid, group_name, message, delay). wire cid message) tasks)" by blast
next
  fix k assume k: "k < length tasks"
  show "fst (gather net tasks s) ! k =
        fst (run_task net (tasks ! k) (snd (gather net (take k tasks) s)))"
    using k by (rule gather_nth)
  show "snd (gather net (take (Suc k) tasks) s) =
        snd (run_task net (tasks ! k) (snd (gather net (take k tasks) s)))"
    using k by (rule gather_nth)
next
  note x = send_to_group_with_delay_exact [of net cid message s group_name delay]
  show "fst (send_to_group_with_delay net cid group_name message delay s) =
     Inr (attempted cid s \<and> net (calls s) = None)"
    using x by (simp add: exact_step_def)
  show "calls (snd (send_to_group_with_delay net cid group_name message delay s)) =
     calls s + (if attempted cid s then 1 else 0)"
    using x by (simp add: exact_step_def)
  show "sent_of (new_events s (snd (send_to_group_with_delay net cid group_name message delay s))) =
     (if attempted cid s then wire cid message else [])"
    using x by (simp add: exact_step_def)
qed (simp_all add: gather_count publish_loop_step successful_sends_append
                   send_to_group_with_delay_eq)


lemma demo_attempted:
  "attempted ''-1001'' demo" "attempted ''-1002'' demo" "attempted ''-1003'' demo"
  by (simp_all add: attempted_def can_send_fst stored_count_def key_of_def int_of_str_def
                    int_strip_def int_space_def digit_val_def demo_defs)

lemma demo_wire:
  "wire ''-1001'' ''A'' = [(- 1001, ''A'')]" "wire ''-1002'' ''A'' = [(- 1002, ''A'')]"
  "wire ''-1003'' ''A'' = [(- 1003, ''A'')]"
  by (simp_all add: wire_def int_of_str_def int_strip_def int_space_def digit_val_def)

text \<open>
  On the network whose second call fails, the batch of the first message has the
  results True, False, True: the third group is served after the failure of the
  second. The run reports 5 of its 6 calls.
\<close>

theorem tally_counts_successes_witness:
  "list_all (\<lambda>t. attempted (fst t) demo) demo_batch \<and> distinct (map fst demo_batch) \<and>
   fst (gather net_broken demo_batch demo) = [Inr True, Inr False, Inr True] \<and>
   calls (snd (gather net_broken demo_batch demo)) = 3 \<and>
   sent_of (new_events demo (snd (gather net_broken demo_batch demo))) =
     [(- 1001, ''A''), (- 1002, ''A''), (- 1003, ''A'')] \<and>
   successful_sends (fst (gather net_broken demo_batch demo)) = 2 \<and>
   groups demo \<noteq> [] \<and> \<not> no_messages (config demo) \<and> lower (strip ''y'') = ''y'' \<and>
   fst (start_publishing net_broken ''y'' demo) = Completed 5 \<and>
   calls (snd (start_publishing net_broken ''y'' demo)) = 6 \<and>
   delivered net_broken 0 6 = 5"
proof -
  note T = tally_counts_successes
    [where net = net_broken and s = demo and tasks = demo_batch and answer = "''y''"
       and total_sent = 5 and cid = "''-1001''" and group_name = "''one''"
       and message = "''A''" and delay = 0 and rs = "[]" and rs' = "[]"
       and e = OtherException and i = 0 and m = "''A''" and rest = "[]" and tot = 0
       and ms = "[]"]
  have h: "list_all (\<lambda>t. attempted (fst t) demo) demo_batch" "distinct (map fst demo_batch)"
    by (simp_all add: demo_batch_def demo_attempted)
  have c: "calls demo = 0" by (simp add: demo_defs)
  from T h have g: "fst (gather net_broken demo_batch demo) =
        map (\<lambda>k. Inr (net_broken (calls demo + k) = None)) [0..<length demo_batch]"
    "calls (snd (gather net_broken demo_batch demo)) = calls demo + length demo_batch"
    "sent_of (new_events demo (snd (gather net_broken demo_batch demo))) =
        concat (map (\<lambda>(cid, group_name, message, delay). wire cid message) demo_batch)"
    by blast+
  have r: "fst (gather net_broken demo_batch demo) = [Inr True, Inr False, Inr True]"
    unfolding g(1) by (simp add: demo_batch_def net_broken_def c)
  have k: "calls (snd (gather net_broken demo_batch demo)) = 3"
    unfolding g(2) by (simp add: demo_batch_def c)
  have w: "sent_of (new_events demo (snd (gather net_broken demo_batch demo))) =
     [(- 1001, ''A''), (- 1002, ''A''), (- 1003, ''A'')]"
    unfolding g(3) by (simp add: demo_batch_def demo_wire)
  have t: "successful_sends (fst (gather net_broken demo_batch demo)) = 2"
    unfolding r by (simp add: successful_sends_def)
  have v: "groups demo \<noteq> []" "\<not> no_messages (config demo)" "lower (strip ''y'') = ''y''"
    by (simp_all add: run_defs demo_defs)
  have p: "fst (start_publishing net_broken ''y'' demo) = Completed 5"
    "calls (snd (start_publishing net_broken ''y'' demo)) = 6"
    by (simp_all add: run_defs demo_defs net_broken_def successful_sends_def)
  from T p(1) have "5 = delivered net_broken (calls demo)
                          (calls (snd (start_publishing net_broken ''y'' demo)))"
    by blast
  then have d: "delivered net_broken 0 6 = 5" by (simp add: p(2) c)
  from h r k w t v p d show ?thesis by blast
qed

section \<open>Properties of continuous mode\<close>

lemma sends_onlyD: "sends_only m evs \<Longrightarrow> SendMessage c t \<in> set evs \<Longrightarrow> t = m"
  by (induction evs) (auto simp: sends_only_def)

lemma blocks_sends:
  "list_all2 sends_only ms bs \<Longrightarrow>
   SendMessage c t \<in> set (concat (map2 (\<lambda>d b. Sleep d # b) ds bs)) \<Longrightarrow> t \<in> set ms"
proof (induction ms bs arbitrary: ds rule: list_all2_induct)
  case Nil
  then show ?case by simp
next
  case (Cons m ms b bs)
  show ?case
  proof (cases ds)
    case Nil
    with Cons.prems show ?thesis by simp
  next
    case (Cons d ds')
    with Cons.prems have "SendMessage c t \<in> set b \<or>
        SendMessage c t \<in> set (concat (map2 (\<lambda>d b. Sleep d # b) ds' bs))"
      by auto
    then show ?thesis
      using Cons.hyps(1) Cons.IH [of ds'] by (auto dest: sends_onlyD)
  qed
qed

lemma publish_loop_first_wait_sends:
  "\<exists>evs. log (snd (publish_loop net i (m # rest) tot s)) =
           log s @ Sleep (delay_before s i) # evs \<and>
         (\<forall>c t. SendMessage c t \<in> set evs \<longrightarrow> t \<in> set (m # rest))"
proof -
  obtain k sn evs where r:
    "publish_loop net i (m # rest) tot s = publish_loop net (Suc i) rest (tot + k) sn"
    "log sn = log s @ Sleep (delay_before s i) # evs" "sends_only m evs"
    using publish_round [of net i m rest tot s] by blast
  obtain bs where bs: "list_all2 sends_only rest bs"
    "log (snd (publish_loop net (Suc i) rest (tot + k) sn)) =
       log sn @ concat (map2 (\<lambda>d b. Sleep d # b)
                         (map (delay_before sn) [Suc i..<Suc i + length rest]) bs)"
    using publish_loop_step [of sn net "Suc i" rest "tot + k"] by blast
  let ?tail = "concat (map2 (\<lambda>d b. Sleep d # b)
                         (map (delay_before sn) [Suc i..<Suc i + length rest]) bs)"
  have "log (snd (publish_loop net i (m # rest) tot s)) =
          log s @ Sleep (delay_before s i) # (evs @ ?tail)"
    using r(1,2) bs(2) by simp
  moreover have "\<forall>c t. SendMessage c t \<in> set (evs @ ?tail) \<longrightarrow> t \<in> set (m # rest)"
    using sends_onlyD [OF r(3)] blocks_sends [OF bs(1)] by auto
  ultimately show ?thesis by blast
qed

lemma same_setup_outside_edit: "same_setup s (outside_edit e s)"
  by (cases e) (simp_all add: outside_edit_def same_setup_def)

lemma log_outside_edit: "log (outside_edit e s) = log s"
  by (cases e) (simp_all add: outside_edit_def)

lemma same_setup_start_publishing: "same_setup s (snd (start_publishing net answer s))"
  using publish_loop_step [of s net 0 "messages (config s)" 0]
  by (simp add: start_publishing_def case_prod_beta)

lemma no_messages_same_setup:
  "same_setup s s' \<Longrightarrow> no_messages (config s') = no_messages (config s)"
  by (simp add: no_messages_def same_setup_def)

lemma run_cycles_same_setup: "same_setup s (run_cycles net edits n s)"
proof (induction n)
  case 0
  show ?case by simp
next
  case (Suc n)
  let ?s1 = "outside_edit (edits n) (run_cycles net edits n s)"
  have "same_setup s ?s1"
    using Suc same_setup_outside_edit by (rule same_setup_trans)
  then have "same_setup s (snd (start_publishing net [] ?s1))"
    using same_setup_start_publishing by (rule same_setup_trans)
  then show ?case by (simp add: case_prod_beta)
qed

text \<open>
  Claim C6, as the code has it. In force mode, with a group registered and a first
  message that is not blank, \<open>run\<close> enters its loop, and for every \<open>n\<close> there is a
  round number \<open>n\<close>: it starts with the wait before the first message, sends nothing
  but messages of the dictionary the program holds in memory since it started, and ends
  with the sleep of 30 seconds. The groups, the messages, the delays and the daily
  limit in memory are the same in every round, whatever is written to \<open>config.json\<close>
  from outside in the meantime: the file is not read again.
\<close>

theorem run_cycles_in_memory:
  assumes "force_mode s" and "groups s \<noteq> []" and "\<not> no_messages (config s)"
  shows "run_force_mode net edits n s = run_cycles net edits n s \<and>
         same_setup s (run_cycles net edits n s) \<and>
         (\<exists>evs. log (run_cycles net edits (Suc n) s) =
                  log (run_cycles net edits n s) @
                    Sleep (case delays (config s) of [] \<Rightarrow> 300 | d # _ \<Rightarrow> d) # evs @ [Sleep 30] \<and>
                (\<forall>c t. SendMessage c t \<in> set evs \<longrightarrow> t \<in> set (messages (config s))))"
proof -
  let ?sn = "run_cycles net edits n s"
  let ?s1 = "outside_edit (edits n) ?sn"
  have sn: "same_setup s ?sn" by (rule run_cycles_same_setup)
  then have s1: "same_setup s ?s1"
    using same_setup_outside_edit by (rule same_setup_trans)
  from s1 assms have v: "groups ?s1 \<noteq> []" "\<not> no_messages (config ?s1)"
    "force_mode ?s1 \<or> lower (strip []) = ''y''"
    by (simp_all add: no_messages_same_setup) (simp_all add: same_setup_def)
  have ms: "messages (config ?s1) = messages (config s)"
    and ds: "delay_before ?s1 0 = delay_before s 0"
    using s1 by (simp_all add: same_setup_def delay_before_def)
  from assms(3) obtain m rest where mr: "messages (config s) = m # rest"
    by (cases "messages (config s)") (auto simp: no_messages_def)
  have sp: "snd (start_publishing net [] ?s1) = snd (publish_loop net 0 (m # rest) 0 ?s1)"
    using start_publishing_runs [OF v, of net] by (simp add: ms mr)
  obtain evs where evs: "log (snd (publish_loop net 0 (m # rest) 0 ?s1)) =
           log ?s1 @ Sleep (delay_before ?s1 0) # evs"
         "\<forall>c t. SendMessage c t \<in> set evs \<longrightarrow> t \<in> set (m # rest)"
    using publish_loop_first_wait_sends [of net 0 m rest 0 ?s1] by blast
  have d: "delay_before s 0 = (case delays (config s) of [] \<Rightarrow> 300 | d # _ \<Rightarrow> d)"
    by (cases "delays (config s)") (simp_all add: delay_before_def)
  have rc: "run_cycles net edits (Suc n) s = sleep 30 (snd (start_publishing net [] ?s1))"
    by (simp add: case_prod_beta Let_def)
  have "log (run_cycles net edits (Suc n) s) =
          log (snd (publish_loop net 0 (m # rest) 0 ?s1)) @ [Sleep 30]"
    unfolding rc sp by (simp add: sleep_def del: publish_loop.simps)
  also have "\<dots> = (log ?s1 @ Sleep (delay_before ?s1 0) # evs) @ [Sleep 30]"
    by (simp only: evs(1))
  also have "\<dots> = log ?sn @
          Sleep (case delays (config s) of [] \<Rightarrow> 300 | d # _ \<Rightarrow> d) # evs @ [Sleep 30]"
    by (simp add: log_outside_edit ds d)
  finally have "log (run_cycles net edits (Suc n) s) =
          log ?sn @ Sleep (case delays (config s) of [] \<Rightarrow> 300 | d # _ \<Rightarrow> d) # evs @ [Sleep 30]" .
  with evs(2) have "\<exists>evs. log (run_cycles net edits (Suc n) s) =
                  log ?sn @
                    Sleep (case delays (config s) of [] \<Rightarrow> 300 | d # _ \<Rightarrow> d) # evs @ [Sleep 30] \<and>
                (\<forall>c t. SendMessage c t \<in> set evs \<longrightarrow> t \<in> set (messages (config s)))"
    unfolding mr by blast
  moreover have "run_force_mode net edits n s = ?sn"
    using assms by (simp add: run_force_mode_def)
  ultimately show ?thesis using sn by blast
qed

lemmas cycle_defs = outside_edit_def edit_new_def demo_force_def demo_config_def net_ok_def

text \<open>Two rounds of the example, with the file rewritten between them.\<close>

lemma demo_force_cycle1:
  "run_cycles net_ok edit_new 1 demo_force =
     \<lparr>force_mode = True,
      groups = [\<lparr>chat_id = ''-1001'', name = ''one'', added_date = ''2024-05-01T08:00:00''\<rparr>],
      config = demo_config\<lparr>messages := [''A''], delays := [10],
                 last_sent := [''-1001_2024-05-02'' \<mapsto> 1]\<rparr>,
      config_file = demo_config\<lparr>messages := [''A''], delays := [10],
                 last_sent := [''-1001_2024-05-02'' \<mapsto> 1]\<rparr>,
      today = ''2024-05-02'', calls = 1,
      log = [Sleep 10, SendMessage (- 1001) ''A'', Sleep 30]\<rparr>"
  by (simp add: run_defs cycle_defs)

lemma demo_force_cycle2:
  "log (run_cycles net_ok edit_new 2 demo_force) =
     [Sleep 10, SendMessage (- 1001) ''A'', Sleep 30,
      Sleep 10, SendMessage (- 1001) ''A'', Sleep 30]"
  "messages (config_file (run_cycles net_ok edit_new 2 demo_force)) = [''A'']"
proof -
  have s: "run_cycles net_ok edit_new 2 demo_force =
           (let s1 = outside_edit (edit_new 1) (run_cycles net_ok edit_new 1 demo_force)
            in sleep 30 (snd (start_publishing net_ok [] s1)))"
    by (simp add: numeral_2_eq_2 case_prod_beta del: run_cycles.simps
             add: run_cycles.simps(2) [of _ _ "Suc 0"])
  show "log (run_cycles net_ok edit_new 2 demo_force) =
     [Sleep 10, SendMessage (- 1001) ''A'', Sleep 30,
      Sleep 10, SendMessage (- 1001) ''A'', Sleep 30]"
    "messages (config_file (run_cycles net_ok edit_new 2 demo_force)) = [''A'']"
    unfolding s demo_force_cycle1 by (simp_all add: run_defs cycle_defs)
qed

text \<open>
  Claim C6 as stated fails: when the second round starts, \<open>config.json\<close> holds the
  message NEW and the delay 1, and the round waits 10 seconds and sends A as the first
  one did. The save after that send puts the old message back into the file.
\<close>

theorem edit_of_file_ignored:
  "messages (config_file (outside_edit (edit_new 1) (run_cycles net_ok edit_new 1 demo_force))) =
     [''NEW''] \<and>
   delays (config_file (outside_edit (edit_new 1) (run_cycles net_ok edit_new 1 demo_force))) =
     [1] \<and>
   log (run_cycles net_ok edit_new 2 demo_force) =
     [Sleep 10, SendMessage (- 1001) ''A'', Sleep 30,
      Sleep 10, SendMessage (- 1001) ''A'', Sleep 30] \<and>
   messages (config_file (run_cycles net_ok edit_new 2 demo_force)) = [''A'']"
  unfolding demo_force_cycle1 demo_force_cycle2
  by (simp add: outside_edit_def edit_new_def demo_config_def)

text \<open>The same two rounds as an instance of the theorem.\<close>

theorem run_cycles_in_memory_witness:
  "force_mode demo_force \<and> groups demo_force \<noteq> [] \<and> \<not> no_messages (config demo_force) \<and>
   run_force_mode net_ok edit_new 2 demo_force = run_cycles net_ok edit_new 2 demo_force \<and>
   messages (config (run_cycles net_ok edit_new 2 demo_force)) = [''A''] \<and>
   delays (config (run_cycles net_ok edit_new 2 demo_force)) = [10] \<and>
   log (run_cycles net_ok edit_new 2 demo_force) =
     log (run_cycles net_ok edit_new 1 demo_force) @
       [Sleep 10, SendMessage (- 1001) ''A'', Sleep 30]"
proof -
  have a: "force_mode demo_force" and b: "groups demo_force \<noteq> []"
    and c: "\<not> no_messages (config demo_force)"
    by (simp_all add: demo_force_def demo_config_def no_messages_def strip_def isspace_def)
  note T = run_cycles_in_memory [OF a b c, of net_ok edit_new 2]
  from T have "same_setup demo_force (run_cycles net_ok edit_new 2 demo_force)" by blast
  then have m: "messages (config (run_cycles net_ok edit_new 2 demo_force)) = [''A'']"
    "delays (config (run_cycles net_ok edit_new 2 demo_force)) = [10]"
    by (simp_all add: same_setup_def demo_force_def demo_config_def)
  from T have r: "run_force_mode net_ok edit_new 2 demo_force =
                  run_cycles net_ok edit_new 2 demo_force" by blast
  have l: "log (run_cycles net_ok edit_new 2 demo_force) =
     log (run_cycles net_ok edit_new 1 demo_force) @
       [Sleep 10, SendMessage (- 1001) ''A'', Sleep 30]"
    unfolding demo_force_cycle1 demo_force_cycle2 by simp
  from a b c r m l show ?thesis by blast
qed

end
